theory Spec2Isabelle
  imports Complex_Main "HOL-Library.Multiset" "HOL-Library.Word" "HOL-Library.Code_Target_Nat"
begin

section \<open>Basic types\<close>

text \<open>
  The typedefs \<open>NodeID\<close>, \<open>EdgeID\<close>, \<open>PartitionID\<close>, \<open>NodeWeight\<close>, \<open>EdgeWeight\<close> and \<open>Gain\<close>
  are declared in a header that is not among the files at hand; the library declares the
  first four as \<open>unsigned int\<close> and the last two as \<open>int\<close>.  Identifiers are only used as
  indices and are modelled as natural numbers.  Node weights, block weights and the node
  counts of the blocks are added, subtracted and compared by the sources in the unsigned
  32-bit type, where a sum wraps around; they are modelled as 32-bit words.  Gains are signed
  edge-weight differences and are modelled as integers.
\<close>

type_synonym NodeID = nat
type_synonym EdgeID = nat
type_synonym PartitionID = nat
type_synonym NodeWeight = "32 word"
type_synonym NodeCount = "32 word"
type_synonym EdgeWeight = int
type_synonym Gain = int

text \<open>
  The ways in which a call does not return normally: a failed \<open>ALWAYS_ASSERT\<close>, a read or
  write past the end of a vector, and a \<open>reserve\<close> of a vector with a size above its maximal
  size (which throws \<open>std::length_error\<close>).
\<close>

datatype error = Assertion_failed | Out_of_bounds | Length_error

text \<open>Sequencing of computations that may abort.\<close>

definition bind_err :: "error + 'a \<Rightarrow> ('a \<Rightarrow> error + 'b) \<Rightarrow> error + 'b" where
  "bind_err m f = (case m of Inl e \<Rightarrow> Inl e | Inr x \<Rightarrow> f x)"

section \<open>The graph store\<close>

text \<open>
  \<open>graph_access\<close> is used by every source file but is not among them.  It is modelled as
  the specification describes it: a CSR with the out-edge range
  \<open>[first_edge v, first_edge (v+1))\<close> of each vertex, a target and a weight per edge, a weight
  and a block label per vertex.
\<close>

record graph_access =
  first_edge :: "EdgeID list"
  node_weight :: "NodeWeight list"
  edge_target :: "NodeID list"
  edge_weight :: "nat list"
  partition_index :: "PartitionID list"

definition number_of_nodes :: "graph_access \<Rightarrow> nat" where
  "number_of_nodes G = length (node_weight G)"

definition number_of_edges :: "graph_access \<Rightarrow> nat" where
  "number_of_edges G = length (edge_target G)"

definition getNodeWeight :: "graph_access \<Rightarrow> NodeID \<Rightarrow> NodeWeight" where
  "getNodeWeight G v = node_weight G ! v"

definition getEdgeTarget :: "graph_access \<Rightarrow> EdgeID \<Rightarrow> NodeID" where
  "getEdgeTarget G e = edge_target G ! e"

definition getEdgeWeight :: "graph_access \<Rightarrow> EdgeID \<Rightarrow> nat" where
  "getEdgeWeight G e = edge_weight G ! e"

definition getPartitionIndex :: "graph_access \<Rightarrow> NodeID \<Rightarrow> PartitionID" where
  "getPartitionIndex G v = partition_index G ! v"

definition setPartitionIndex :: "graph_access \<Rightarrow> NodeID \<Rightarrow> PartitionID \<Rightarrow> graph_access" where
  "setPartitionIndex G v p = G\<lparr>partition_index := (partition_index G)[v := p]\<rparr>"

text \<open>The edges visited by \<open>forall_out_edges(G, e, v)\<close>, in order.\<close>

definition out_edges :: "graph_access \<Rightarrow> NodeID \<Rightarrow> EdgeID list" where
  "out_edges G v = [first_edge G ! v ..< first_edge G ! (v + 1)]"

definition neighbours :: "graph_access \<Rightarrow> NodeID \<Rightarrow> NodeID list" where
  "neighbours G v = map (getEdgeTarget G) (out_edges G v)"

text \<open>
  A well-formed graph: the arrays have matching lengths, the edge ranges are monotone and
  end at the number of edges, every target is a vertex, and every vertex has a block label.
\<close>

definition graph_ok :: "graph_access \<Rightarrow> bool" where
  "graph_ok G \<longleftrightarrow>
     length (first_edge G) = number_of_nodes G + 1 \<and>
     length (edge_weight G) = number_of_edges G \<and>
     length (partition_index G) = number_of_nodes G \<and>
     sorted (first_edge G) \<and>
     last (first_edge G) = number_of_edges G \<and>
     list_all (\<lambda>t. t < number_of_nodes G) (edge_target G)"

text \<open>Every edge is stored in both directions (the data model's invariant on adjacency).\<close>

definition symmetric_adjacency :: "graph_access \<Rightarrow> bool" where
  "symmetric_adjacency G \<longleftrightarrow>
     list_all (\<lambda>v. list_all (\<lambda>u. v \<in> set (neighbours G u)) (neighbours G v))
       [0 ..< number_of_nodes G]"

section \<open>The boundary\<close>

text \<open>
  \<open>complete_boundary\<close> is not among the source files either.  Its per-block aggregates are
  plain arrays read and written by the callers.

  Modelled from the spec: the boundary index.  The specification defines it by
  \<open>v \<in> B(a\<rightarrow>b) \<longleftrightarrow> block(v) = a \<and> (\<exists>neighbour u. block(u) = b)\<close>, with the derived
  aggregate \<open>edgeCut(a, b) = \<Sum> w(u, v)\<close> over \<open>u\<close> in block \<open>a\<close> and \<open>v\<close> in block \<open>b\<close>, kept for
  the pairs of distinct blocks whose cut is not zero.  The memberships are kept here as the
  set of triples \<open>(a, b, v)\<close> with \<open>v \<in> B(a\<rightarrow>b)\<close>, the edge cuts as a finite map from pairs of
  blocks.  \<open>build\<close> and \<open>build_edge_cut\<close> scan every vertex once.
  \<open>postMovedBoundaryNodeUpdates\<close>, called after the label of \<open>v\<close> has been changed between
  the two blocks of the pair, recomputes the presence of \<open>v\<close> and of each neighbour of \<open>v\<close>
  in the boundaries that involve a block of the pair, and the edge cut of every pair that
  involves a block of the pair.
\<close>

type_synonym boundary_index = "(PartitionID \<times> PartitionID \<times> NodeID) set"

type_synonym edge_cut_index = "PartitionID \<times> PartitionID \<rightharpoonup> EdgeWeight"

record complete_boundary =
  block_no_nodes :: "NodeCount list"
  block_weight :: "NodeWeight list"
  bnd_index :: boundary_index
  bnd_edge_cut :: edge_cut_index

definition getBlockNoNodes :: "complete_boundary \<Rightarrow> PartitionID \<Rightarrow> NodeCount" where
  "getBlockNoNodes b p = block_no_nodes b ! p"

definition setBlockNoNodes :: "complete_boundary \<Rightarrow> PartitionID \<Rightarrow> NodeCount \<Rightarrow> complete_boundary" where
  "setBlockNoNodes b p n = b\<lparr>block_no_nodes := (block_no_nodes b)[p := n]\<rparr>"

definition getBlockWeight :: "complete_boundary \<Rightarrow> PartitionID \<Rightarrow> NodeWeight" where
  "getBlockWeight b p = block_weight b ! p"

definition setBlockWeight :: "complete_boundary \<Rightarrow> PartitionID \<Rightarrow> NodeWeight \<Rightarrow> complete_boundary" where
  "setBlockWeight b p w = b\<lparr>block_weight := (block_weight b)[p := w]\<rparr>"

definition boundary_entries :: "graph_access \<Rightarrow> NodeID \<Rightarrow> (PartitionID \<times> PartitionID \<times> NodeID) list" where
  "boundary_entries G v =
     map (\<lambda>u. (getPartitionIndex G v, getPartitionIndex G u, v))
       (filter (\<lambda>u. getPartitionIndex G u \<noteq> getPartitionIndex G v) (neighbours G v))"

definition build :: "graph_access \<Rightarrow> boundary_index" where
  "build G = set (concat (map (boundary_entries G) [0 ..< number_of_nodes G]))"

definition block_edge_cut :: "graph_access \<Rightarrow> PartitionID \<Rightarrow> PartitionID \<Rightarrow> EdgeWeight" where
  "block_edge_cut G a b =
     sum_list (map (\<lambda>v. if getPartitionIndex G v = a
                         then sum_list (map (\<lambda>e. if getPartitionIndex G (getEdgeTarget G e) = b
                                                   then int (getEdgeWeight G e) else 0)
                                          (out_edges G v))
                         else 0)
                 [0 ..< number_of_nodes G])"

definition build_edge_cut :: "graph_access \<Rightarrow> edge_cut_index" where
  "build_edge_cut G =
     (\<lambda>p. if fst p \<noteq> snd p \<and> block_edge_cut G (fst p) (snd p) \<noteq> 0
          then Some (block_edge_cut G (fst p) (snd p)) else None)"

record boundary_pair =
  pair_k :: PartitionID
  lhs :: PartitionID
  rhs :: PartitionID

definition affected :: "boundary_pair \<Rightarrow> NodeID list \<Rightarrow> (PartitionID \<times> PartitionID \<times> NodeID) \<Rightarrow> bool" where
  "affected pr touched t \<longleftrightarrow>
     snd (snd t) \<in> set touched \<and>
     (fst t = lhs pr \<or> fst t = rhs pr \<or> fst (snd t) = lhs pr \<or> fst (snd t) = rhs pr)"

definition affected_pair :: "boundary_pair \<Rightarrow> PartitionID \<times> PartitionID \<Rightarrow> bool" where
  "affected_pair pr p \<longleftrightarrow>
     fst p = lhs pr \<or> fst p = rhs pr \<or> snd p = lhs pr \<or> snd p = rhs pr"

definition postMovedBoundaryNodeUpdates ::
  "graph_access \<Rightarrow> NodeID \<Rightarrow> boundary_pair \<Rightarrow> complete_boundary \<Rightarrow> complete_boundary" where
  "postMovedBoundaryNodeUpdates G node pr b =
     (let touched = node # neighbours G node
      in b\<lparr>bnd_index :=
             Set.filter (\<lambda>t. \<not> affected pr touched t) (bnd_index b) \<union>
             Set.filter (affected pr touched) (set (concat (map (boundary_entries G) touched))),
           bnd_edge_cut :=
             (\<lambda>p. if affected_pair pr p then build_edge_cut G p else bnd_edge_cut b p)\<rparr>)"

section \<open>Configuration and per-thread data\<close>

datatype ApplyMoveStrategy = LOCAL_SEARCH | GAIN_RECALCULATION | REACTIVE_VERTICES | SKIP

record PartitionConfig =
  cfg_k :: PartitionID
  upper_bound_partition :: int
  max_number_of_moves :: int
  apply_move_strategy :: ApplyMoveStrategy
  kway_all_boundary_nodes_refinement :: bool
  kway_adaptive_limits_alpha :: int
  num_threads :: nat
  time_limit :: real
  input_partition :: string
  graph_allready_partitioned :: bool
  only_first_level :: bool
  mh_no_mh :: bool
  no_change_convergence :: bool
  corner_refinement_enabled :: bool
  kaffpa_perfectly_balanced_refinement :: bool

text \<open>
  \<open>thread_data_refinement_core\<close> is declared in a header that is not among the sources; the
  record lists the members that the functions of \<open>kway_graph_refinement_core.cpp\<close> use.  The
  graph and the boundary are shared by all threads; everything else belongs to the thread.
  The priority queue is kept as the list of its (node, gain) entries, the shadow labels
  \<open>nodes_partitions\<close> as a finite map, the random bit generator as a sequence of bits and the
  number of bits drawn so far, and the stop rule as a value of a type \<open>'sr\<close> of its own.
  The thread's block weights \<open>parts_weights\<close> are read into a \<open>NodeWeight\<close> by the sources
  and are kept in that type, as are the thread's block sizes \<open>parts_sizes\<close>.
\<close>

record 'sr thread_data_refinement_core =
  graph :: graph_access
  boundary :: complete_boundary
  config :: PartitionConfig
  td_id :: nat
  queue :: "(NodeID \<times> Gain) list"
  moved_idx :: "bool list"
  moved :: "NodeID list"
  start_nodes :: "NodeID list"
  nodes_partitions :: "(NodeID \<times> PartitionID) list"
  parts_weights :: "NodeWeight list"
  parts_sizes :: "NodeCount list"
  rnd_bits :: "nat \<Rightarrow> bool"
  rnd_pos :: nat
  stopping_rule :: 'sr
  step_limit :: nat
  num_threads_finished :: nat
  transpositions :: "NodeID list"
  from_partitions :: "PartitionID list"
  to_partitions :: "PartitionID list"
  gains :: "Gain list"
  accepted_movements :: int
  scaned_neighbours :: nat
  stop_empty_queue :: nat
  stop_stopping_rule :: nat
  stop_max_number_of_swaps :: nat

section \<open>Moves on the shared graph\<close>

text \<open>
  \<open>relaxed_move_node\<close> (lines 827--864).  The debug-only \<open>ASSERT_TRUE\<close> checks are left out;
  \<open>ALWAYS_ASSERT\<close> aborts the program and is the \<open>Inl\<close> branch.  The sum of the weight guard
  is a sum of two \<open>NodeWeight\<close> values and wraps around at \<open>2^32\<close>; the bound
  \<open>upper_bound_partition\<close> is compared in the same unsigned type (whether the configuration
  declares it as \<open>NodeWeight\<close> or as \<open>int\<close>, the usual arithmetic conversions give this
  comparison).  The four updates of the counts and weights wrap around as well.
\<close>

definition relaxed_move_node ::
  "'sr thread_data_refinement_core \<Rightarrow> NodeID \<Rightarrow> PartitionID \<Rightarrow> PartitionID
     \<Rightarrow> error + (bool \<times> 'sr thread_data_refinement_core)" where
  "relaxed_move_node td node from to =
     (if getPartitionIndex (graph td) node \<noteq> from then Inl Assertion_failed
      else
        let this_nodes_weight = getNodeWeight (graph td) node in
        if getBlockWeight (boundary td) to + this_nodes_weight
             \<ge> word_of_int (upper_bound_partition (config td))
        then Inr (False, td)
        else if getBlockNoNodes (boundary td) from = 1
        then Inr (False, td)
        else
          let G' = setPartitionIndex (graph td) node to;
              pr = \<lparr>pair_k = cfg_k (config td), lhs = from, rhs = to\<rparr>;
              b1 = postMovedBoundaryNodeUpdates G' node pr (boundary td);
              b2 = setBlockNoNodes b1 from (getBlockNoNodes b1 from - 1);
              b3 = setBlockNoNodes b2 to (getBlockNoNodes b2 to + 1);
              b4 = setBlockWeight b3 from (getBlockWeight b3 from - this_nodes_weight);
              b5 = setBlockWeight b4 to (getBlockWeight b4 to + this_nodes_weight)
          in Inr (True, td\<lparr>graph := G', boundary := b5\<rparr>))"

text \<open>\<open>relaxed_move_node_back\<close> (lines 898--916).\<close>

definition relaxed_move_node_back ::
  "'sr thread_data_refinement_core \<Rightarrow> NodeID \<Rightarrow> PartitionID \<Rightarrow> PartitionID
     \<Rightarrow> error + 'sr thread_data_refinement_core" where
  "relaxed_move_node_back td node from to =
     (if getPartitionIndex (graph td) node \<noteq> to then Inl Assertion_failed
      else
        let G' = setPartitionIndex (graph td) node from;
            pr = \<lparr>pair_k = cfg_k (config td), lhs = from, rhs = to\<rparr>;
            b1 = postMovedBoundaryNodeUpdates G' node pr (boundary td);
            this_nodes_weight = getNodeWeight G' node;
            b2 = setBlockNoNodes b1 from (getBlockNoNodes b1 from + 1);
            b3 = setBlockNoNodes b2 to (getBlockNoNodes b2 to - 1);
            b4 = setBlockWeight b3 from (getBlockWeight b3 from + this_nodes_weight);
            b5 = setBlockWeight b4 to (getBlockWeight b4 to - this_nodes_weight)
        in Inr (td\<lparr>graph := G', boundary := b5\<rparr>))"

section \<open>A small instance\<close>

text \<open>
  Five unit-weight vertices: the path \<open>0 - 1 - 2 - 3\<close> with edge weights \<open>2, 1, 1\<close> and the
  isolated vertex \<open>4\<close>; vertices \<open>0, 1, 4\<close> are in block \<open>0\<close>, vertices \<open>2, 3\<close> in block \<open>1\<close>.
\<close>

definition example_graph :: graph_access where
  "example_graph =
     \<lparr>first_edge = [0, 1, 3, 5, 6, 6],
      node_weight = [1, 1, 1, 1, 1],
      edge_target = [1, 0, 2, 1, 3, 2],
      edge_weight = [2, 2, 1, 1, 1, 1],
      partition_index = [0, 0, 1, 1, 0]\<rparr>"

definition example_boundary :: complete_boundary where
  "example_boundary =
     \<lparr>block_no_nodes = [3, 2], block_weight = [3, 2], bnd_index = build example_graph,
      bnd_edge_cut = build_edge_cut example_graph\<rparr>"

definition example_config :: PartitionConfig where
  "example_config =
     \<lparr>cfg_k = 2, upper_bound_partition = 6, max_number_of_moves = - 1,
      apply_move_strategy = GAIN_RECALCULATION, kway_all_boundary_nodes_refinement = False,
      kway_adaptive_limits_alpha = 1, num_threads = 1, time_limit = 0, input_partition = [],
      graph_allready_partitioned = False, only_first_level = False, mh_no_mh = True,
      no_change_convergence = True, corner_refinement_enabled = True,
      kaffpa_perfectly_balanced_refinement = True\<rparr>"

definition example_td :: "unit thread_data_refinement_core" where
  "example_td =
     \<lparr>graph = example_graph, boundary = example_boundary, config = example_config,
      td_id = 0, queue = [], moved_idx = [False, False, False, False, False], moved = [],
      start_nodes = [1, 2], nodes_partitions = [], parts_weights = [3, 2],
      parts_sizes = [3, 2], rnd_bits = (\<lambda>_. False), rnd_pos = 0, stopping_rule = (),
      step_limit = 10, num_threads_finished = 0, transpositions = [], from_partitions = [],
      to_partitions = [], gains = [], accepted_movements = 0, scaned_neighbours = 0,
      stop_empty_queue = 0, stop_stopping_rule = 0, stop_max_number_of_swaps = 0\<rparr>"


section \<open>The map of committed nodes\<close>

text \<open>
  \<open>moved_nodes_hash_map\<close> maps a node to the pair (owner thread, block it was moved from).
  \<open>std::numeric_limits<uint32_t>::max()\<close> is the owner written by the conflict handlers.
\<close>

type_synonym moved_nodes_hash_map = "NodeID \<rightharpoonup> (nat \<times> PartitionID)"

definition uint32_max :: nat where
  "uint32_max = 4294967295"

text \<open>\<open>is_moved\<close> (lines 449--451).\<close>

definition is_moved :: "moved_nodes_hash_map \<Rightarrow> NodeID \<Rightarrow> nat \<Rightarrow> bool" where
  "is_moved moved_nodes node thread_id =
     (case moved_nodes node of None \<Rightarrow> False | Some p \<Rightarrow> fst p \<noteq> thread_id)"

text \<open>
  The loop of \<open>local_search_from_one_node\<close> that records the surviving moves (lines 284--288):
  \<^verbatim>\<open>for (size_t i = 0; transpositions.size(); ++i)\<close>.  Its condition is the size of the
  vector, which the body does not change; the body reads \<open>transpositions[i]\<close> and
  \<open>from_partitions[i]\<close>, and a read at an index that is not below the size is the error
  \<open>Out_of_bounds\<close>.
\<close>

function local_search_record_loop ::
  "NodeID list \<Rightarrow> PartitionID list \<Rightarrow> moved_nodes_hash_map \<Rightarrow> nat \<Rightarrow> error + moved_nodes_hash_map" where
  "local_search_record_loop ts fs moved_nodes i =
     (if length ts \<noteq> 0
      then (if i < length ts \<and> i < length fs
            then local_search_record_loop ts fs (moved_nodes(ts ! i \<mapsto> (uint32_max, fs ! i))) (i + 1)
            else Inl Out_of_bounds)
      else Inr moved_nodes)"
  by pat_completeness auto
termination
  by (relation "measure (\<lambda>(ts, fs, m, i). length ts - i)") auto

declare local_search_record_loop.simps [simp del]

text \<open>
  The corresponding loop of \<open>gain_recalculation\<close> (lines 362--366), whose condition is
  \<open>i < transpositions.size()\<close>.
\<close>

function gain_recalculation_record_loop ::
  "NodeID list \<Rightarrow> PartitionID list \<Rightarrow> moved_nodes_hash_map \<Rightarrow> nat \<Rightarrow> error + moved_nodes_hash_map" where
  "gain_recalculation_record_loop ts fs moved_nodes i =
     (if i < length ts
      then (if i < length fs
            then gain_recalculation_record_loop ts fs (moved_nodes(ts ! i \<mapsto> (uint32_max, fs ! i))) (i + 1)
            else Inl Out_of_bounds)
      else Inr moved_nodes)"
  by pat_completeness auto
termination
  by (relation "measure (\<lambda>(ts, fs, m, i). length ts - i)") auto

declare gain_recalculation_record_loop.simps [simp del]

section \<open>Collaborators of the refinement core\<close>

text \<open>
  The constants \<open>INVALID_PARTITION\<close>, \<open>sentinel\<close> and \<open>signed_sentinel\<close> are defined in headers
  that are not among the sources.  They are given their customary values (the largest value
  of the unsigned type, and of the signed type); no proof below depends on the values.
\<close>

definition INVALID_PARTITION :: PartitionID where
  "INVALID_PARTITION = 4294967295"

definition sentinel :: nat where
  "sentinel = 4294967295"

definition signed_sentinel :: int where
  "signed_sentinel = 2147483647"

text \<open>The conversion of an \<open>int\<close> to \<open>uint32_t\<close>.\<close>

definition to_uint32 :: "int \<Rightarrow> nat" where
  "to_uint32 x = nat (x mod 4294967296)"

text \<open>
  The functions that the refinement core calls and that are defined elsewhere are parameters,
  collected in one record:
  \<^item> \<open>compute_gain\<close> is \<open>td.compute_gain(node, from, to, ext_degree)\<close>; it returns the gain, the
    best destination block and the external degree, and reads the thread data;
  \<^item> \<open>commons_compute_gain\<close> is \<open>commons->compute_gain(td.G, node, to, ext_degree)\<close>, which
    reads the shared graph;
  \<^item> \<open>permutate_start_nodes\<close> is the random permutation (or none) that
    \<open>init_queue_with_boundary\<close> applies to the start nodes;
  \<^item> \<open>new_stop_rule\<close>, \<open>search_should_stop\<close>, \<open>push_statistics\<close> and \<open>reset_statistics\<close> are the
    constructor and the three operations of \<open>kway_stop_rule\<close>.
\<close>

record 'sr externals =
  compute_gain ::
    "'sr thread_data_refinement_core \<Rightarrow> NodeID \<Rightarrow> PartitionID \<Rightarrow> Gain \<times> PartitionID \<times> EdgeWeight"
  commons_compute_gain :: "graph_access \<Rightarrow> NodeID \<Rightarrow> Gain \<times> PartitionID \<times> EdgeWeight"
  permutate_start_nodes :: "'sr thread_data_refinement_core \<Rightarrow> NodeID list"
  new_stop_rule :: "PartitionConfig \<Rightarrow> 'sr"
  search_should_stop :: "'sr \<Rightarrow> nat \<Rightarrow> nat \<Rightarrow> nat \<Rightarrow> bool \<times> 'sr"
  push_statistics :: "'sr \<Rightarrow> Gain \<Rightarrow> 'sr"
  reset_statistics :: "'sr \<Rightarrow> 'sr"

text \<open>
  Modelled from the spec: the gain priority queue (\<open>refinement_pq\<close>, with its two back-ends,
  is not among the sources).  It is a max-priority queue keyed by gain with insert,
  change-key, delete-by-id and pop-max; ties are broken in favour of the entry inserted
  first.
\<close>

type_synonym refinement_pq = "(NodeID \<times> Gain) list"

definition pq_insert :: "refinement_pq \<Rightarrow> NodeID \<Rightarrow> Gain \<Rightarrow> refinement_pq" where
  "pq_insert q node gain = q @ [(node, gain)]"

definition pq_contains :: "refinement_pq \<Rightarrow> NodeID \<Rightarrow> bool" where
  "pq_contains q node \<longleftrightarrow> node \<in> set (map fst q)"

definition pq_changeKey :: "refinement_pq \<Rightarrow> NodeID \<Rightarrow> Gain \<Rightarrow> refinement_pq" where
  "pq_changeKey q node gain = map (\<lambda>e. if fst e = node then (node, gain) else e) q"

definition pq_deleteNode :: "refinement_pq \<Rightarrow> NodeID \<Rightarrow> refinement_pq" where
  "pq_deleteNode q node = filter (\<lambda>e. fst e \<noteq> node) q"

fun pq_max_entry :: "refinement_pq \<Rightarrow> NodeID \<times> Gain" where
  "pq_max_entry [] = (0, 0)"
| "pq_max_entry [e] = e"
| "pq_max_entry (e # e' # es) =
     (let m = pq_max_entry (e' # es) in if snd e \<ge> snd m then e else m)"

definition pq_maxValue :: "refinement_pq \<Rightarrow> Gain" where
  "pq_maxValue q = snd (pq_max_entry q)"

definition pq_deleteMax :: "refinement_pq \<Rightarrow> NodeID \<times> refinement_pq" where
  "pq_deleteMax q = (fst (pq_max_entry q), pq_deleteNode q (fst (pq_max_entry q)))"

text \<open>
  Modelled from the spec: the shadow labels of a thread.  \<open>get_local_partition\<close> reads the
  thread-local override map and falls back to the label of the shared graph;
  \<open>set_local_partition\<close> writes the override map only.
\<close>

definition get_local_partition :: "'sr thread_data_refinement_core \<Rightarrow> NodeID \<Rightarrow> PartitionID" where
  "get_local_partition td node =
     (case map_of (nodes_partitions td) node of
        Some p \<Rightarrow> p
      | None \<Rightarrow> getPartitionIndex (graph td) node)"

definition set_local_partition ::
  "'sr thread_data_refinement_core \<Rightarrow> NodeID \<Rightarrow> PartitionID \<Rightarrow> 'sr thread_data_refinement_core" where
  "set_local_partition td node p = td\<lparr>nodes_partitions := (node, p) # nodes_partitions td\<rparr>"

section \<open>The exploration phase\<close>

text \<open>
  \<open>init_queue_with_boundary\<close> (lines 760--780).  The compare-and-exchange on \<open>moved_idx[node]\<close>
  succeeds when the bit is clear; the interleaving with other threads is not modelled.
\<close>

definition init_queue_node ::
  "'sr externals \<Rightarrow> NodeID \<Rightarrow> 'sr thread_data_refinement_core \<Rightarrow> 'sr thread_data_refinement_core" where
  "init_queue_node ext node td =
     (if \<not> moved_idx td ! node
      then
        let td1 = td\<lparr>moved_idx := (moved_idx td)[node := True]\<rparr>;
            from = get_local_partition td1 node;
            gain = fst (compute_gain ext td1 node from)
        in td1\<lparr>queue := pq_insert (queue td1) node gain, moved := moved td1 @ [node]\<rparr>
      else td)"

definition init_queue_with_boundary ::
  "'sr externals \<Rightarrow> 'sr thread_data_refinement_core \<Rightarrow> 'sr thread_data_refinement_core" where
  "init_queue_with_boundary ext td =
     (let td1 = td\<lparr>start_nodes := permutate_start_nodes ext td\<rparr>
      in fold (init_queue_node ext) (start_nodes td1) td1)"

text \<open>
  \<open>local_move_node\<close> (lines 939--1027).  The body of the loop over the out-edges of the moved
  node is \<open>local_move_update_neighbour\<close>.  The result is the flag, the destination \<open>to\<close> (an
  output parameter of the source) and the thread data.
\<close>

definition local_move_update_neighbour ::
  "'sr externals \<Rightarrow> EdgeID \<Rightarrow> 'sr thread_data_refinement_core \<Rightarrow> 'sr thread_data_refinement_core" where
  "local_move_update_neighbour ext e td0 =
     (let td = td0\<lparr>scaned_neighbours := scaned_neighbours td0 + 1\<rparr>;
          target = getEdgeTarget (graph td) e
      in if pq_contains (queue td) target
         then
           let target_from = get_local_partition td target;
               r = compute_gain ext td target target_from;
               gain = fst r;
               ext_degree = snd (snd r)
           in if ext_degree > 0
              then td\<lparr>queue := pq_changeKey (queue td) target gain\<rparr>
              else td\<lparr>queue := pq_deleteNode (queue td) target\<rparr>
         else if moved_idx td ! target
         then td
         else
           let target_from = get_local_partition td target;
               r = compute_gain ext td target target_from;
               gain = fst r;
               ext_degree = snd (snd r)
           in if ext_degree > 0
              then td\<lparr>moved_idx := (moved_idx td)[target := True],
                      queue := pq_insert (queue td) target gain,
                      moved := moved td @ [target]\<rparr>
              else td)"

definition local_move_node ::
  "'sr externals \<Rightarrow> 'sr thread_data_refinement_core \<Rightarrow> NodeID \<Rightarrow> PartitionID \<Rightarrow> Gain
     \<Rightarrow> error + (bool \<times> PartitionID \<times> 'sr thread_data_refinement_core)" where
  "local_move_node ext td node from gain =
     (let r = compute_gain ext td node from;
          expected_gain = fst r;
          to = fst (snd r)
      in if expected_gain \<noteq> gain then Inl Assertion_failed
         else if to = INVALID_PARTITION then Inl Assertion_failed
         else
           let this_nodes_weight = getNodeWeight (graph td) node
           in if parts_sizes td ! from = 1 then Inr (False, to, td)
              else
                let part_weight = parts_weights td ! to
                in if part_weight + this_nodes_weight
                        \<ge> word_of_int (upper_bound_partition (config td))
                   then Inr (False, to, td)
                   else
                     let td1 = td\<lparr>parts_weights := (parts_weights td)[to := part_weight + this_nodes_weight]\<rparr>;
                         td2 = set_local_partition td1 node to;
                         td3 = td2\<lparr>parts_weights :=
                                 (parts_weights td2)[from := parts_weights td2 ! from - this_nodes_weight]\<rparr>;
                         td4 = td3\<lparr>parts_sizes := (parts_sizes td3)[to := parts_sizes td3 ! to + 1]\<rparr>;
                         td5 = td4\<lparr>parts_sizes := (parts_sizes td4)[from := parts_sizes td4 ! from - 1]\<rparr>
                     in Inr (True, to, fold (local_move_update_neighbour ext) (out_edges (graph td5) node) td5))"

text \<open>\<open>local_move_back_node\<close> (lines 918--937); the call to \<open>set_local_partition\<close> is commented
  out in the source.\<close>

definition local_move_back_node ::
  "'sr thread_data_refinement_core \<Rightarrow> NodeID \<Rightarrow> PartitionID \<Rightarrow> PartitionID
     \<Rightarrow> 'sr thread_data_refinement_core" where
  "local_move_back_node td node from to =
     (let this_nodes_weight = getNodeWeight (graph td) node;
          td1 = td\<lparr>parts_weights := (parts_weights td)[from := parts_weights td ! from + this_nodes_weight]\<rparr>;
          td2 = td1\<lparr>parts_weights := (parts_weights td1)[to := parts_weights td1 ! to - this_nodes_weight]\<rparr>;
          td3 = td2\<lparr>parts_sizes := (parts_sizes td2)[to := parts_sizes td2 ! to - 1]\<rparr>
      in td3\<lparr>parts_sizes := (parts_sizes td3)[from := parts_sizes td3 ! from + 1]\<rparr>)"

text \<open>
  \<open>unroll_moves\<close> (lines 378--392).  The loop reads the three logs at
  \<open>size - 1 - unrolled_moves\<close>; a read outside a log is the error \<open>Out_of_bounds\<close>.  The sum
  \<open>unrolled_moves + min_cut_index + 1\<close> of the loop condition is a sum of a \<open>uint32_t\<close> and an
  \<open>int\<close>, computed in the unsigned 32-bit type, and is then compared with the size of the log:
  for \<open>min_cut_index < - 1\<close> it wraps around to a large number and the loop is not entered.
  On a log of \<open>2^32\<close> or more entries the condition of the source is always true and its loop
  does not end; the model then ends with \<open>Out_of_bounds\<close> when the counter has passed the log.
\<close>

function unroll_moves_loop ::
  "'sr thread_data_refinement_core \<Rightarrow> int \<Rightarrow> nat \<Rightarrow> error + ('sr thread_data_refinement_core \<times> nat)" where
  "unroll_moves_loop td min_cut_index unrolled_moves =
     (if to_uint32 (int unrolled_moves + min_cut_index + 1) < length (transpositions td)
      then
        (if unrolled_moves < length (transpositions td)
            \<and> length (transpositions td) - 1 - unrolled_moves < length (from_partitions td)
            \<and> length (transpositions td) - 1 - unrolled_moves < length (to_partitions td)
         then
           let index = length (transpositions td) - 1 - unrolled_moves;
               node = transpositions td ! index;
               from = from_partitions td ! index;
               to = to_partitions td ! index
           in unroll_moves_loop (local_move_back_node td node from to) min_cut_index (unrolled_moves + 1)
         else Inl Out_of_bounds)
      else Inr (td, unrolled_moves))"
  by pat_completeness auto
termination
  by (relation "measure (\<lambda>(td, m, u). length (transpositions td) - u)")
    (auto simp: local_move_back_node_def Let_def)

declare unroll_moves_loop.simps [simp del]

definition unroll_moves ::
  "'sr thread_data_refinement_core \<Rightarrow> int \<Rightarrow> error + ('sr thread_data_refinement_core \<times> nat)" where
  "unroll_moves td min_cut_index = unroll_moves_loop td min_cut_index 0"

text \<open>
  \<open>single_kway_refinement_round_internal\<close> (lines 50--169).  The state of its loop is the
  thread data and the local variables \<open>cut\<close>, \<open>best_cut\<close>, \<open>min_cut_index\<close> and
  \<open>number_of_swaps\<close>; \<open>round_step\<close> is one pass through the loop body, which either leaves the
  loop (\<open>Break\<close>) or reaches its end (\<open>Continue\<close>).
\<close>

record 'sr round_state =
  rs_td :: "'sr thread_data_refinement_core"
  rs_cut :: EdgeWeight
  rs_best_cut :: EdgeWeight
  rs_min_cut_index :: int
  rs_number_of_swaps :: int

datatype 'a loop_step = Break 'a | Continue 'a

definition push_sentinels :: "'sr thread_data_refinement_core \<Rightarrow> 'sr thread_data_refinement_core" where
  "push_sentinels td =
     td\<lparr>transpositions := transpositions td @ [sentinel],
        from_partitions := from_partitions td @ [sentinel],
        to_partitions := to_partitions td @ [sentinel],
        gains := gains td @ [signed_sentinel]\<rparr>"

definition round_accept ::
  "'sr externals \<Rightarrow> int \<Rightarrow> 'sr round_state \<Rightarrow> NodeID \<Rightarrow> PartitionID \<Rightarrow> PartitionID \<Rightarrow> Gain
     \<Rightarrow> 'sr thread_data_refinement_core \<Rightarrow> error + 'sr round_state loop_step" where
  "round_accept ext previously_moved st node from to gain td2 =
     (let td3 = td2\<lparr>accepted_movements := accepted_movements td2 + 1\<rparr>;
          cut = rs_cut st - gain;
          td4 = td3\<lparr>stopping_rule := push_statistics ext (stopping_rule td3) gain\<rparr>;
          accept_equal = rnd_bits td4 (rnd_pos td4);
          td5 = td4\<lparr>rnd_pos := rnd_pos td4 + 1\<rparr>;
          better = (cut < rs_best_cut st \<or> (cut = rs_best_cut st \<and> accept_equal));
          td6 = (if better \<and> cut < rs_best_cut st
                 then td5\<lparr>stopping_rule := reset_statistics ext (stopping_rule td5)\<rparr>
                 else td5);
          best_cut = (if better then cut else rs_best_cut st);
          min_cut_index = (if better then previously_moved + rs_number_of_swaps st
                           else rs_min_cut_index st);
          td7 = td6\<lparr>from_partitions := from_partitions td6 @ [from],
                    to_partitions := to_partitions td6 @ [to],
                    transpositions := transpositions td6 @ [node],
                    gains := gains td6 @ [gain]\<rparr>
      in if min_cut_index < int (length (transpositions td7))
         then Inr (Continue (st\<lparr>rs_td := td7, rs_cut := cut, rs_best_cut := best_cut,
                                rs_min_cut_index := min_cut_index\<rparr>))
         else Inl Assertion_failed)"

definition round_step ::
  "'sr externals \<Rightarrow> int \<Rightarrow> 'sr round_state \<Rightarrow> error + 'sr round_state loop_step" where
  "round_step ext previously_moved st =
     (let td = rs_td st
      in if queue td = []
         then Inr (Break (st\<lparr>rs_td := td\<lparr>stop_empty_queue := stop_empty_queue td + 1\<rparr>\<rparr>))
         else if num_threads_finished td > 0
         then Inr (Break st)
         else
           let local_min_cut_index =
                 (if rs_min_cut_index st - previously_moved \<ge> 0
                  then to_uint32 (rs_min_cut_index st - previously_moved) else 0);
               r = search_should_stop ext (stopping_rule td) local_min_cut_index
                     (to_uint32 (rs_number_of_swaps st)) (step_limit td);
               td0 = td\<lparr>stopping_rule := snd r\<rparr>
           in if fst r
              then Inr (Break (st\<lparr>rs_td := td0\<lparr>stop_stopping_rule := stop_stopping_rule td0 + 1\<rparr>\<rparr>))
              else
                let gain = pq_maxValue (queue td0);
                    node = fst (pq_deleteMax (queue td0));
                    td1 = td0\<lparr>queue := snd (pq_deleteMax (queue td0))\<rparr>;
                    from = get_local_partition td1 node
                in bind_err (local_move_node ext td1 node from gain)
                     (\<lambda>(successfull, to, td2).
                        if successfull
                        then round_accept ext previously_moved st node from to gain td2
                        else Inr (Continue (st\<lparr>rs_td := td2,
                                               rs_number_of_swaps := rs_number_of_swaps st - 1\<rparr>))))"

function round_loop ::
  "'sr externals \<Rightarrow> nat \<Rightarrow> int \<Rightarrow> 'sr round_state \<Rightarrow> nat \<Rightarrow> error + ('sr round_state \<times> nat)" where
  "round_loop ext max_number_of_swaps previously_moved st movements =
     (if movements < max_number_of_swaps
      then
        (case round_step ext previously_moved st of
           Inl e \<Rightarrow> Inl e
         | Inr (Break st') \<Rightarrow> Inr (st', movements)
         | Inr (Continue st') \<Rightarrow>
             round_loop ext max_number_of_swaps previously_moved
               (st'\<lparr>rs_number_of_swaps := rs_number_of_swaps st' + 1\<rparr>) (movements + 1))
      else Inr (st, movements))"
  by pat_completeness auto
termination
  by (relation "measure (\<lambda>(ext, m, p, st, i). m - i)") auto

declare round_loop.simps [simp del]

definition int_max :: int where
  "int_max = 2147483647"

definition single_kway_refinement_round_internal ::
  "'sr externals \<Rightarrow> 'sr thread_data_refinement_core
     \<Rightarrow> error + ((EdgeWeight \<times> int \<times> nat) \<times> 'sr thread_data_refinement_core)" where
  "single_kway_refinement_round_internal ext td_in =
     (let td = init_queue_with_boundary ext (td_in\<lparr>queue := []\<rparr>)
      in if queue td = []
         then Inr ((0, - 1, 0), push_sentinels td)
         else
           let max_number_of_swaps =
                 (if max_number_of_moves (config td) \<noteq> - 1
                  then to_uint32 (max_number_of_moves (config td))
                  else number_of_nodes (graph td));
               cut = int_max div 2;
               initial_cut = cut;
               td1 = td\<lparr>config := (config td)\<lparr>kway_adaptive_limits_alpha := 10\<rparr>\<rparr>;
               td2 = td1\<lparr>stopping_rule := new_stop_rule ext (config td1)\<rparr>;
               previously_moved = int (length (transpositions td2));
               st = \<lparr>rs_td = td2, rs_cut = cut, rs_best_cut = cut,
                     rs_min_cut_index = previously_moved - 1, rs_number_of_swaps = 0\<rparr>
           in bind_err (round_loop ext max_number_of_swaps previously_moved st 0)
                (\<lambda>(st', movements).
                   let td3 = (if movements = max_number_of_swaps
                              then (rs_td st')\<lparr>stop_max_number_of_swaps :=
                                                stop_max_number_of_swaps (rs_td st') + 1\<rparr>
                              else rs_td st')
                   in bind_err (unroll_moves td3 (rs_min_cut_index st'))
                        (\<lambda>(td4, unrolled_moves).
                           let td5 = td4\<lparr>accepted_movements := accepted_movements td4 - int unrolled_moves,
                                         nodes_partitions := []\<rparr>
                           in Inr ((initial_cut - rs_best_cut st', rs_min_cut_index st', movements),
                                   push_sentinels td5))))"

definition single_kway_refinement_round ::
  "'sr externals \<Rightarrow> 'sr thread_data_refinement_core
     \<Rightarrow> error + ((EdgeWeight \<times> int \<times> nat) \<times> 'sr thread_data_refinement_core)" where
  "single_kway_refinement_round ext td = single_kway_refinement_round_internal ext td"

text \<open>The four logs of a thread, and the relation "the logs of \<open>td'\<close> are those of \<open>td\<close> with the
  same number of entries appended to each".\<close>

definition logs ::
  "'sr thread_data_refinement_core \<Rightarrow> NodeID list \<times> PartitionID list \<times> PartitionID list \<times> Gain list" where
  "logs td = (transpositions td, from_partitions td, to_partitions td, gains td)"

definition logs_grow ::
  "'sr thread_data_refinement_core \<Rightarrow> 'sr thread_data_refinement_core \<Rightarrow> bool" where
  "logs_grow td td' \<longleftrightarrow>
     (\<exists>ns fs ts gs.
        length fs = length ns \<and> length ts = length ns \<and> length gs = length ns \<and>
        logs td' = (transpositions td @ ns, from_partitions td @ fs, to_partitions td @ ts,
                    gains td @ gs))"

section \<open>The apply phase\<close>

text \<open>A loop over a list whose body may abort.\<close>

primrec foldM_err :: "('a \<Rightarrow> 's \<Rightarrow> error + 's) \<Rightarrow> 'a list \<Rightarrow> 's \<Rightarrow> error + 's" where
  "foldM_err f [] s = Inr s"
| "foldM_err f (x # xs) s = (case f x s of Inl e \<Rightarrow> Inl e | Inr s' \<Rightarrow> foldM_err f xs s')"

text \<open>
  The backward roll of \<open>gain_recalculation\<close> (lines 349--359) and of
  \<open>local_search_from_one_node\<close> (lines 271--281), entered with the counter already
  decremented: while the counter is above the best index, the last entries of the three local
  vectors are popped and the move is taken back.
\<close>

function roll_back_moves ::
  "'sr thread_data_refinement_core \<Rightarrow> NodeID list \<Rightarrow> PartitionID list \<Rightarrow> PartitionID list
     \<Rightarrow> int \<Rightarrow> int
     \<Rightarrow> error + ('sr thread_data_refinement_core \<times> NodeID list \<times> PartitionID list \<times> PartitionID list)" where
  "roll_back_moves td ts fs tos num_moves best_index =
     (if num_moves > best_index
      then
        (if ts = [] \<or> fs = [] \<or> tos = [] then Inl Out_of_bounds
         else
           (case relaxed_move_node_back td (last ts) (last fs) (last tos) of
              Inl e \<Rightarrow> Inl e
            | Inr td' \<Rightarrow>
                roll_back_moves td' (butlast ts) (butlast fs) (butlast tos) (num_moves - 1) best_index))
      else Inr (td, ts, fs, tos))"
  by pat_completeness auto
termination
  by (relation "measure (\<lambda>(td, ts, fs, tos, n, b). nat (n - b))") auto

declare roll_back_moves.simps [simp del]

text \<open>The reconstruction of the touched blocks (lines 368--374 and 291--297).\<close>

definition record_touched ::
  "PartitionID list \<Rightarrow> PartitionID list \<Rightarrow> (PartitionID \<rightharpoonup> PartitionID) \<Rightarrow> (PartitionID \<rightharpoonup> PartitionID)" where
  "record_touched fs tos touched_blocks =
     fold (\<lambda>i m. (m(fs ! i \<mapsto> fs ! i))(tos ! i \<mapsto> tos ! i)) [0 ..< length fs] touched_blocks"

text \<open>
  \<open>gain_recalculation\<close> (lines 302--376).  The state of its first loop is the thread data and
  the local variables; \<open>gain_recalculation_step\<close> is the body of the loop for one index.  The
  bounds \<open>start\<close> and \<open>end\<close> are of type \<open>int\<close>: \<open>reserve (end - start)\<close> converts a negative
  difference to a size above the maximal size of a vector and throws, and a negative index
  reads outside the log.
\<close>

record 'sr recalc_state =
  gr_td :: "'sr thread_data_refinement_core"
  gr_total_gain :: EdgeWeight
  gr_best_total_gain :: EdgeWeight
  gr_best_gain_index :: int
  gr_transpositions :: "NodeID list"
  gr_from_partitions :: "PartitionID list"
  gr_to_partitions :: "PartitionID list"
  gr_num_moves :: int

definition gain_recalculation_step ::
  "'sr externals \<Rightarrow> int \<Rightarrow> 'sr recalc_state \<Rightarrow> error + 'sr recalc_state" where
  "gain_recalculation_step ext index st =
     (let td = gr_td st
      in if 0 \<le> index \<and> nat index < length (transpositions td)
         then
           let node = transpositions td ! nat index;
               from = getPartitionIndex (graph td) node;
               r = commons_compute_gain ext (graph td) node;
               gain = fst r;
               to = fst (snd r)
           in if to = INVALID_PARTITION then Inr st
              else
                (case relaxed_move_node td node from to of
                   Inl e \<Rightarrow> Inl e
                 | Inr (success, td') \<Rightarrow>
                     if success
                     then
                       let total_gain = gr_total_gain st + gain;
                           accept_equal = rnd_bits td' (rnd_pos td');
                           td'' = td'\<lparr>rnd_pos := rnd_pos td' + 1\<rparr>;
                           better = (total_gain > gr_best_total_gain st
                                     \<or> (total_gain = gr_best_total_gain st \<and> accept_equal))
                       in Inr (st\<lparr>gr_td := td'',
                                  gr_total_gain := total_gain,
                                  gr_best_total_gain :=
                                    (if better then total_gain else gr_best_total_gain st),
                                  gr_best_gain_index :=
                                    (if better then gr_num_moves st else gr_best_gain_index st),
                                  gr_transpositions := gr_transpositions st @ [node],
                                  gr_from_partitions := gr_from_partitions st @ [from],
                                  gr_to_partitions := gr_to_partitions st @ [to],
                                  gr_num_moves := gr_num_moves st + 1\<rparr>)
                     else Inr (st\<lparr>gr_td := td'\<rparr>))
         else Inl Out_of_bounds)"

definition gain_recalculation_moves ::
  "'sr externals \<Rightarrow> 'sr thread_data_refinement_core \<Rightarrow> int \<Rightarrow> int \<Rightarrow> error + 'sr recalc_state" where
  "gain_recalculation_moves ext td start end_index =
     foldM_err (gain_recalculation_step ext) [start .. end_index - 1]
       \<lparr>gr_td = td, gr_total_gain = 0, gr_best_total_gain = 0, gr_best_gain_index = - 1,
        gr_transpositions = [], gr_from_partitions = [], gr_to_partitions = [],
        gr_num_moves = 0\<rparr>"

definition gain_recalculation ::
  "'sr externals \<Rightarrow> 'sr thread_data_refinement_core \<Rightarrow> moved_nodes_hash_map \<Rightarrow> int \<Rightarrow> int \<Rightarrow> bool
     \<Rightarrow> (PartitionID \<rightharpoonup> PartitionID)
     \<Rightarrow> error + ((EdgeWeight \<times> nat) \<times> 'sr thread_data_refinement_core \<times> moved_nodes_hash_map
                 \<times> (PartitionID \<rightharpoonup> PartitionID))" where
  "gain_recalculation ext td moved_nodes start end_index compute_touched_partitions touched_blocks =
     (if end_index < start then Inl Length_error
      else
     bind_err (gain_recalculation_moves ext td start end_index)
       (\<lambda>st. bind_err (roll_back_moves (gr_td st) (gr_transpositions st) (gr_from_partitions st)
                         (gr_to_partitions st) (gr_num_moves st - 1) (gr_best_gain_index st))
          (\<lambda>(td', ts, fs, tos).
             if length ts \<noteq> length fs then Inl Assertion_failed
             else bind_err (gain_recalculation_record_loop ts fs moved_nodes 0)
               (\<lambda>moved_nodes'.
                  Inr ((gr_best_total_gain st, to_uint32 (end_index - start)), td', moved_nodes',
                       (if compute_touched_partitions then record_touched fs tos touched_blocks
                        else touched_blocks))))))"

text \<open>
  \<open>unroll_relaxed_moves\<close> over a range of the thread's log (lines 866--880).  The bounds are of
  type \<open>int\<close>, and the loop runs from \<open>end - 1\<close> down to \<open>start\<close>; a negative index reads outside
  the log.
\<close>

definition unroll_relaxed_step ::
  "nat \<Rightarrow> 'sr thread_data_refinement_core \<times> moved_nodes_hash_map \<times> int
     \<Rightarrow> error + ('sr thread_data_refinement_core \<times> moved_nodes_hash_map \<times> int)" where
  "unroll_relaxed_step index s =
     (case s of (td, moved_nodes, cut_improvement) \<Rightarrow>
        if index < length (transpositions td) \<and> index < length (from_partitions td)
           \<and> index < length (to_partitions td) \<and> index < length (gains td)
        then
          (case relaxed_move_node_back td (transpositions td ! index) (from_partitions td ! index)
                  (to_partitions td ! index) of
             Inl e \<Rightarrow> Inl e
           | Inr td' \<Rightarrow>
               Inr (td', moved_nodes(transpositions td ! index := None),
                    cut_improvement - gains td ! index))
        else Inl Out_of_bounds)"

definition unroll_relaxed_moves ::
  "'sr thread_data_refinement_core \<Rightarrow> moved_nodes_hash_map \<Rightarrow> int \<Rightarrow> int \<Rightarrow> int
     \<Rightarrow> error + ('sr thread_data_refinement_core \<times> moved_nodes_hash_map \<times> int)" where
  "unroll_relaxed_moves td moved_nodes start end_index cut_improvement =
     foldM_err (\<lambda>index s. if index < 0 then Inl Out_of_bounds else unroll_relaxed_step (nat index) s)
       (rev [start .. end_index - 1]) (td, moved_nodes, cut_improvement)"

text \<open>
  \<open>unroll_relaxed_moves\<close> over local vectors of moves (lines 882--896), called at line 538 with
  the moves that \<open>apply_moves\<close> has committed since the last best point.  The destination of a
  move is not stored; it is the label the vertex has when the move is taken back.
\<close>

definition unroll_relaxed_vectors_step ::
  "NodeID list \<Rightarrow> PartitionID list \<Rightarrow> Gain list \<Rightarrow> nat \<Rightarrow> 'sr thread_data_refinement_core \<times> int
     \<Rightarrow> error + ('sr thread_data_refinement_core \<times> int)" where
  "unroll_relaxed_vectors_step ts fs gs index s =
     (case s of (td, cut_improvement) \<Rightarrow>
        if index < length ts \<and> index < length fs \<and> index < length gs
        then
          let node = ts ! index;
              from = fs ! index;
              to = getPartitionIndex (graph td) node
          in (case relaxed_move_node_back td node from to of
                Inl e \<Rightarrow> Inl e
              | Inr td' \<Rightarrow> Inr (td', cut_improvement - gs ! index))
        else Inl Out_of_bounds)"

definition unroll_relaxed_moves_vectors ::
  "'sr thread_data_refinement_core \<Rightarrow> NodeID list \<Rightarrow> PartitionID list \<Rightarrow> Gain list \<Rightarrow> int
     \<Rightarrow> error + ('sr thread_data_refinement_core \<times> int)" where
  "unroll_relaxed_moves_vectors td ts fs gs cut_improvement =
     foldM_err (unroll_relaxed_vectors_step ts fs gs) (rev [0 ..< length ts]) (td, cut_improvement)"

text \<open>
  The calls of \<open>relaxed_move_node\<close> that the apply phase makes for the entries
  \<open>[start, end)\<close> of the log, in order, as long as each is accepted (the loop of lines
  623--736 without a conflict).  The result says whether all of them were accepted.
\<close>

fun commit_moves ::
  "'sr thread_data_refinement_core \<Rightarrow> (NodeID \<times> PartitionID \<times> PartitionID) list
     \<Rightarrow> error + (bool \<times> 'sr thread_data_refinement_core)" where
  "commit_moves td [] = Inr (True, td)"
| "commit_moves td ((node, from, to) # ms) =
     (case relaxed_move_node td node from to of
        Inl e \<Rightarrow> Inl e
      | Inr (success, td') \<Rightarrow> if success then commit_moves td' ms else Inr (False, td'))"

definition log_entries ::
  "'sr thread_data_refinement_core \<Rightarrow> nat \<Rightarrow> nat \<Rightarrow> (NodeID \<times> PartitionID \<times> PartitionID) list" where
  "log_entries td start end_index =
     map (\<lambda>i. (transpositions td ! i, from_partitions td ! i, to_partitions td ! i))
       [start ..< end_index]"

text \<open>
  \<open>move_node\<close> (lines 782--825) and \<open>local_search_from_one_node\<close> (lines 171--300).  The local
  search has a queue, a set of nodes it has touched and a stop rule of its own.
\<close>

record 'sr search_state =
  ls_td :: "'sr thread_data_refinement_core"
  ls_queue :: refinement_pq
  ls_moved :: "NodeID set"
  ls_stopping_rule :: 'sr
  ls_cut :: EdgeWeight
  ls_best_cut :: EdgeWeight
  ls_min_cut_index :: int
  ls_number_of_swaps :: int
  ls_transpositions :: "NodeID list"
  ls_from_partitions :: "PartitionID list"
  ls_to_partitions :: "PartitionID list"

definition move_node_update_neighbour ::
  "'sr externals \<Rightarrow> graph_access \<Rightarrow> EdgeID \<Rightarrow> refinement_pq \<times> NodeID set \<Rightarrow> refinement_pq \<times> NodeID set" where
  "move_node_update_neighbour ext G e s =
     (case s of (q, moved_set) \<Rightarrow>
        let target = getEdgeTarget G e;
            r = commons_compute_gain ext G target;
            gain = fst r;
            ext_degree = snd (snd r)
        in if pq_contains q target
           then (if ext_degree > 0 then (pq_changeKey q target gain, moved_set)
                 else (pq_deleteNode q target, moved_set))
           else if ext_degree > 0 \<and> target \<notin> moved_set
           then (pq_insert q target gain, insert target moved_set)
           else (q, moved_set))"

definition move_node ::
  "'sr externals \<Rightarrow> 'sr thread_data_refinement_core \<Rightarrow> NodeID set \<Rightarrow> NodeID \<Rightarrow> refinement_pq
     \<Rightarrow> error + (bool \<times> 'sr thread_data_refinement_core \<times> NodeID set \<times> refinement_pq)" where
  "move_node ext td moved_set node q =
     (let from = getPartitionIndex (graph td) node;
          to = fst (snd (commons_compute_gain ext (graph td) node))
      in if to = INVALID_PARTITION then Inl Assertion_failed
         else
           (case relaxed_move_node td node from to of
              Inl e \<Rightarrow> Inl e
            | Inr (success, td') \<Rightarrow>
                if \<not> success then Inr (False, td', moved_set, q)
                else
                  let s = fold (move_node_update_neighbour ext (graph td')) (out_edges (graph td') node)
                            (q, moved_set)
                  in Inr (True, td', snd s, fst s)))"

definition local_search_step ::
  "'sr externals \<Rightarrow> 'sr search_state \<Rightarrow> error + 'sr search_state loop_step" where
  "local_search_step ext st =
     (if ls_queue st = [] then Inr (Break st)
      else
        let r = search_should_stop ext (ls_stopping_rule st)
                  (if ls_min_cut_index st \<ge> 0 then to_uint32 (ls_min_cut_index st) else 0)
                  (to_uint32 (ls_number_of_swaps st)) (step_limit (ls_td st));
            st0 = st\<lparr>ls_stopping_rule := snd r\<rparr>
        in if fst r then Inr (Break st0)
           else
             let gain = pq_maxValue (ls_queue st0);
                 node = fst (pq_deleteMax (ls_queue st0));
                 q = snd (pq_deleteMax (ls_queue st0));
                 from = getPartitionIndex (graph (ls_td st0)) node
             in (case move_node ext (ls_td st0) (ls_moved st0) node q of
                   Inl e \<Rightarrow> Inl e
                 | Inr (successfull, td', moved_set, q') \<Rightarrow>
                     if successfull
                     then
                       let cut = ls_cut st0 - gain;
                           sr1 = push_statistics ext (ls_stopping_rule st0) gain;
                           accept_equal = rnd_bits td' (rnd_pos td');
                           td'' = td'\<lparr>rnd_pos := rnd_pos td' + 1\<rparr>;
                           better = (cut < ls_best_cut st0 \<or> (cut = ls_best_cut st0 \<and> accept_equal));
                           sr2 = (if better \<and> cut < ls_best_cut st0 then reset_statistics ext sr1 else sr1)
                       in Inr (Continue
                            (st0\<lparr>ls_td := td'', ls_queue := q', ls_moved := moved_set,
                                 ls_stopping_rule := sr2, ls_cut := cut,
                                 ls_best_cut := (if better then cut else ls_best_cut st0),
                                 ls_min_cut_index :=
                                   (if better then ls_number_of_swaps st0 else ls_min_cut_index st0),
                                 ls_from_partitions := ls_from_partitions st0 @ [from],
                                 ls_to_partitions :=
                                   ls_to_partitions st0 @ [getPartitionIndex (graph td'') node],
                                 ls_transpositions := ls_transpositions st0 @ [node]\<rparr>))
                     else Inr (Continue
                            (st0\<lparr>ls_td := td', ls_queue := q', ls_moved := moved_set,
                                 ls_number_of_swaps := ls_number_of_swaps st0 - 1\<rparr>))))"

function local_search_loop ::
  "'sr externals \<Rightarrow> nat \<Rightarrow> 'sr search_state \<Rightarrow> nat \<Rightarrow> error + ('sr search_state \<times> nat)" where
  "local_search_loop ext max_number_of_swaps st movements =
     (if movements < max_number_of_swaps
      then
        (case local_search_step ext st of
           Inl e \<Rightarrow> Inl e
         | Inr (Break st') \<Rightarrow> Inr (st', movements)
         | Inr (Continue st') \<Rightarrow>
             local_search_loop ext max_number_of_swaps
               (st'\<lparr>ls_number_of_swaps := ls_number_of_swaps st' + 1\<rparr>) (movements + 1))
      else Inr (st, movements))"
  by pat_completeness auto
termination
  by (relation "measure (\<lambda>(ext, m, st, i). m - i)") auto

declare local_search_loop.simps [simp del]

definition local_search_from_one_node ::
  "'sr externals \<Rightarrow> 'sr thread_data_refinement_core \<Rightarrow> moved_nodes_hash_map \<Rightarrow> NodeID \<Rightarrow> nat \<Rightarrow> bool
     \<Rightarrow> (PartitionID \<rightharpoonup> PartitionID)
     \<Rightarrow> error + ((EdgeWeight \<times> nat) \<times> 'sr thread_data_refinement_core \<times> moved_nodes_hash_map
                 \<times> (PartitionID \<rightharpoonup> PartitionID))" where
  "local_search_from_one_node ext td moved_nodes start_node max_swaps compute_touched_partitions
       touched_blocks =
     (let max_number_of_swaps = (2 * max_swaps + 100) mod 4294967296;
          r = commons_compute_gain ext (graph td) start_node;
          gain = fst r;
          ext_degree = snd (snd r)
      in if ext_degree = 0 then Inr ((0, 0), td, moved_nodes, touched_blocks)
         else
           let cut = int_max div 2;
               st = \<lparr>ls_td = td, ls_queue = pq_insert [] start_node gain, ls_moved = {},
                     ls_stopping_rule = new_stop_rule ext (config td), ls_cut = cut,
                     ls_best_cut = cut, ls_min_cut_index = - 1, ls_number_of_swaps = 0,
                     ls_transpositions = [], ls_from_partitions = [], ls_to_partitions = []\<rparr>
           in bind_err (local_search_loop ext max_number_of_swaps st 0)
                (\<lambda>(st', movements).
                   bind_err (roll_back_moves (ls_td st') (ls_transpositions st') (ls_from_partitions st')
                               (ls_to_partitions st') (ls_number_of_swaps st' - 1) (ls_min_cut_index st'))
                     (\<lambda>(td', ts, fs, tos).
                        if length ts \<noteq> length fs then Inl Assertion_failed
                        else bind_err (local_search_record_loop ts fs moved_nodes 0)
                          (\<lambda>moved_nodes'.
                             Inr ((cut - ls_best_cut st', movements), td', moved_nodes',
                                  (if compute_touched_partitions
                                   then record_touched fs tos touched_blocks
                                   else touched_blocks))))))"

text \<open>
  Two thread data agree on the shared state that the source itself maintains when their
  graphs (topology, weights and block labels), their block counts, their block weights and
  their configurations are equal.  The boundary index and the thread's own data may differ.
\<close>

definition same_shared ::
  "'sr thread_data_refinement_core \<Rightarrow> 'sr thread_data_refinement_core \<Rightarrow> bool" where
  "same_shared td td' \<longleftrightarrow>
     graph td = graph td' \<and>
     block_no_nodes (boundary td) = block_no_nodes (boundary td') \<and>
     block_weight (boundary td) = block_weight (boundary td') \<and>
     config td = config td'"

text \<open>The two array updates of a move (subtract at \<open>from\<close>, then add at \<open>to\<close>) and of a move
  back (add at \<open>from\<close>, then subtract at \<open>to\<close>), in the unsigned 32-bit type.\<close>

definition move_counts :: "32 word list \<Rightarrow> PartitionID \<Rightarrow> PartitionID \<Rightarrow> 32 word \<Rightarrow> 32 word list" where
  "move_counts c from to d = (let c1 = c[from := c ! from - d] in c1[to := c1 ! to + d])"

definition back_counts :: "32 word list \<Rightarrow> PartitionID \<Rightarrow> PartitionID \<Rightarrow> 32 word \<Rightarrow> 32 word list" where
  "back_counts c from to d = (let c1 = c[from := c ! from + d] in c1[to := c1 ! to - d])"

text \<open>The boundary index (memberships and edge cuts) agrees with the block labels of the
  graph.\<close>

definition index_consistent :: "'sr thread_data_refinement_core \<Rightarrow> bool" where
  "index_consistent td \<longleftrightarrow>
     bnd_index (boundary td) = build (graph td) \<and>
     bnd_edge_cut (boundary td) = build_edge_cut (graph td)"

text \<open>
  The effect of an accepted move on the thread's block weights and block sizes, as
  \<open>local_move_node\<close> writes it (add at \<open>to\<close>, then subtract at \<open>from\<close>), and the effect of
  \<open>local_move_back_node\<close>; \<open>nw\<close> are the node weights of the graph.
\<close>

definition local_apply ::
  "NodeWeight list \<Rightarrow> NodeWeight list \<times> NodeCount list \<Rightarrow> NodeID \<times> PartitionID \<times> PartitionID
     \<Rightarrow> NodeWeight list \<times> NodeCount list" where
  "local_apply nw a m =
     (case a of (pw, ps) \<Rightarrow> case m of (node, from, to) \<Rightarrow>
        let w = nw ! node;
            pw1 = pw[to := pw ! to + w];
            pw2 = pw1[from := pw1 ! from - w];
            ps1 = ps[to := ps ! to + 1];
            ps2 = ps1[from := ps1 ! from - 1]
        in (pw2, ps2))"

definition local_undo ::
  "NodeWeight list \<Rightarrow> NodeWeight list \<times> NodeCount list \<Rightarrow> NodeID \<times> PartitionID \<times> PartitionID
     \<Rightarrow> NodeWeight list \<times> NodeCount list" where
  "local_undo nw a m =
     (case a of (pw, ps) \<Rightarrow> case m of (node, from, to) \<Rightarrow>
        let w = nw ! node;
            pw1 = pw[from := pw ! from + w];
            pw2 = pw1[to := pw1 ! to - w];
            ps1 = ps[to := ps ! to - 1];
            ps2 = ps1[from := ps1 ! from + 1]
        in (pw2, ps2))"

definition local_aggregates ::
  "'sr thread_data_refinement_core \<Rightarrow> NodeWeight list \<times> NodeCount list" where
  "local_aggregates td = (parts_weights td, parts_sizes td)"

text \<open>The invariant of the loop of a round that started with \<open>pm\<close> log entries and the local
  aggregates \<open>a0\<close>.\<close>

definition round_inv :: "NodeWeight list \<times> NodeCount list \<Rightarrow> nat \<Rightarrow> 'sr round_state \<Rightarrow> bool" where
  "round_inv a0 pm st \<longleftrightarrow>
     length (from_partitions (rs_td st)) = length (transpositions (rs_td st)) \<and>
     length (to_partitions (rs_td st)) = length (transpositions (rs_td st)) \<and>
     pm \<le> length (transpositions (rs_td st)) \<and>
     local_aggregates (rs_td st)
       = foldl (local_apply (node_weight (graph (rs_td st)))) a0
           (log_entries (rs_td st) pm (length (transpositions (rs_td st)))) \<and>
     int pm - 1 \<le> rs_min_cut_index st \<and>
     rs_min_cut_index st < int (length (transpositions (rs_td st)))"

section \<open>The driver\<close>

text \<open>
  The part of \<open>main\<close> in \<open>kaffpa.cpp\<close> between reading the graph and writing the partition.
  \<open>main\<close> declares \<open>partition_config\<close> and passes it to the partitioner.  Lines 91--95 assign
  to an object named \<open>config\<close>, which \<open>main\<close> does not declare; it is kept as a separate
  component of the state.  The graph is \<open>G\<close>.
\<close>

record main_state =
  main_partition_config :: PartitionConfig
  main_config :: PartitionConfig
  main_G :: graph_access
  main_input_partition :: "PartitionID list"

text \<open>
  \<open>graph_io::readPartition\<close> is not among the sources.  The file it reads holds one block id
  per vertex (the partition file format); the ids are the parameter \<open>file_labels\<close>.
\<close>

definition readPartition :: "graph_access \<Rightarrow> PartitionID list \<Rightarrow> graph_access" where
  "readPartition G file_labels =
     fold (\<lambda>node G'. setPartitionIndex G' node (file_labels ! node)) [0 ..< number_of_nodes G] G"

text \<open>Lines 86--102.\<close>

definition read_input_partition :: "PartitionID list \<Rightarrow> main_state \<Rightarrow> main_state" where
  "read_input_partition file_labels s =
     (if input_partition (main_partition_config s) \<noteq> []
      then
        let G' = readPartition (main_G s) file_labels;
            pc = (main_partition_config s)\<lparr>graph_allready_partitioned := True\<rparr>;
            c = (main_config s)
                  \<lparr>only_first_level := True,
                   mh_no_mh := False,
                   no_change_convergence := False,
                   corner_refinement_enabled := False,
                   kaffpa_perfectly_balanced_refinement := False\<rparr>
        in s\<lparr>main_G := G', main_partition_config := pc, main_config := c,
              main_input_partition := map (getPartitionIndex G') [0 ..< number_of_nodes G']\<rparr>
      else s)"

text \<open>
  Lines 165--185.  The partitioner and the quality metrics are not among the sources:
  \<open>perform_partitioning\<close> is a parameter that maps the number of runs made so far (it stands
  for the state of the random number generators), the configuration and the graph to the
  partitioned graph, and \<open>edge_cut\<close> is a parameter.  The readings of \<open>t.elapsed()\<close> at the
  successive tests of the loop condition are given as a list; a list that ends before a test
  fails describes no complete run of the loop.  \<open>new PartitionID[n]\<close> does not initialise the
  array: its initial contents are the parameter \<open>fresh\<close>.
\<close>

definition EdgeWeight_max :: EdgeWeight where
  "EdgeWeight_max = 2147483647"

definition save_partition :: "graph_access \<Rightarrow> PartitionID list \<Rightarrow> PartitionID list" where
  "save_partition G m = fold (\<lambda>node m'. m'[node := getPartitionIndex G node]) [0 ..< number_of_nodes G] m"

definition restore_partition :: "graph_access \<Rightarrow> PartitionID list \<Rightarrow> graph_access" where
  "restore_partition G m = fold (\<lambda>node G'. setPartitionIndex G' node (m ! node)) [0 ..< number_of_nodes G] G"

fun time_limit_loop ::
  "(nat \<Rightarrow> PartitionConfig \<Rightarrow> graph_access \<Rightarrow> graph_access) \<Rightarrow> (graph_access \<Rightarrow> EdgeWeight)
     \<Rightarrow> real list \<Rightarrow> nat \<Rightarrow> PartitionConfig \<Rightarrow> graph_access \<Rightarrow> PartitionID list \<Rightarrow> EdgeWeight
     \<Rightarrow> (PartitionConfig \<times> graph_access \<times> PartitionID list \<times> EdgeWeight \<times> nat) option" where
  "time_limit_loop perform_partitioning edge_cut [] runs pc G m best_cut = None"
| "time_limit_loop perform_partitioning edge_cut (elapsed # later) runs pc G m best_cut =
     (if elapsed < time_limit pc
      then
        let pc' = pc\<lparr>graph_allready_partitioned := False\<rparr>;
            G' = perform_partitioning runs pc' G;
            cut = edge_cut G'
        in if cut < best_cut
           then time_limit_loop perform_partitioning edge_cut later (runs + 1) pc' G'
                  (save_partition G' m) cut
           else time_limit_loop perform_partitioning edge_cut later (runs + 1) pc' G' m best_cut
      else Some (pc, G, m, best_cut, runs))"

definition perform_partitioning_section ::
  "(nat \<Rightarrow> PartitionConfig \<Rightarrow> graph_access \<Rightarrow> graph_access) \<Rightarrow> (graph_access \<Rightarrow> EdgeWeight)
     \<Rightarrow> real list \<Rightarrow> PartitionID list \<Rightarrow> main_state \<Rightarrow> (main_state \<times> nat) option" where
  "perform_partitioning_section perform_partitioning edge_cut clock fresh s =
     (if time_limit (main_partition_config s) = 0
      then Some (s\<lparr>main_G := perform_partitioning 0 (main_partition_config s) (main_G s)\<rparr>, 1)
      else
        (case time_limit_loop perform_partitioning edge_cut clock 0 (main_partition_config s)
                (main_G s) fresh EdgeWeight_max of
           None \<Rightarrow> None
         | Some (pc, G, m, best_cut, runs) \<Rightarrow>
             Some (s\<lparr>main_partition_config := pc, main_G := restore_partition G m\<rparr>, runs)))"

definition example_main :: main_state where
  "example_main =
     \<lparr>main_partition_config = example_config\<lparr>input_partition := ''part.txt'', time_limit := 3\<rparr>,
      main_config = example_config,
      main_G = example_graph,
      main_input_partition = []\<rparr>"

section \<open>A gain function for the small instance\<close>

text \<open>
  Modelled from the spec: the gain of moving \<open>v\<close> from block \<open>a\<close> to block \<open>b\<close> is the weight of
  the edges from \<open>v\<close> into \<open>b\<close> minus the weight of the edges from \<open>v\<close> into \<open>a\<close>.  The best
  destination is the block other than \<open>a\<close> with the largest connectivity (the first such block
  in the order of the out-edges), \<open>INVALID_PARTITION\<close> when \<open>v\<close> has no neighbour outside \<open>a\<close>;
  the external degree is the weight of the edges that leave \<open>a\<close>.  This function instantiates
  the parameters \<open>compute_gain\<close> and \<open>commons_compute_gain\<close> in the concrete runs below.
\<close>

definition connectivity :: "graph_access \<Rightarrow> (NodeID \<Rightarrow> PartitionID) \<Rightarrow> NodeID \<Rightarrow> PartitionID \<Rightarrow> int" where
  "connectivity G label node b =
     sum_list (map (\<lambda>e. if label (getEdgeTarget G e) = b then int (getEdgeWeight G e) else 0)
                 (out_edges G node))"

definition gain_by_labels ::
  "graph_access \<Rightarrow> (NodeID \<Rightarrow> PartitionID) \<Rightarrow> NodeID \<Rightarrow> PartitionID \<Rightarrow> Gain \<times> PartitionID \<times> EdgeWeight" where
  "gain_by_labels G label node from =
     (let others = remdups (filter (\<lambda>b. b \<noteq> from) (map label (neighbours G node)))
      in if others = []
         then (- connectivity G label node from, INVALID_PARTITION, 0)
         else
           let to = fold (\<lambda>b best. if connectivity G label node b > connectivity G label node best
                                    then b else best) (tl others) (hd others)
           in (connectivity G label node to - connectivity G label node from, to,
               sum_list (map (connectivity G label node) others)))"

definition example_ext :: "unit externals" where
  "example_ext =
     \<lparr>compute_gain = (\<lambda>td node from. gain_by_labels (graph td) (get_local_partition td) node from),
      commons_compute_gain =
        (\<lambda>G node. gain_by_labels G (getPartitionIndex G) node (getPartitionIndex G node)),
      permutate_start_nodes = start_nodes,
      new_stop_rule = (\<lambda>c. ()),
      search_should_stop = (\<lambda>sr min_cut_idx swaps limit. (False, sr)),
      push_statistics = (\<lambda>sr gain. sr),
      reset_statistics = (\<lambda>sr. sr)\<rparr>"

text \<open>
  The thread data of the small instance with a log of two moves: vertex 1 from block 0 to
  block 1 (logged with gain \<open>- 1\<close>), then vertex 0 from block 0 to block 1 (logged with
  gain 2).
\<close>

definition example_log_td :: "unit thread_data_refinement_core" where
  "example_log_td =
     example_td\<lparr>transpositions := [1, 0], from_partitions := [0, 0], to_partitions := [1, 1],
                gains := [- 1, 2]\<rparr>"



text \<open>
  A second instance: the path \<open>0 - 1 - 2 - 3\<close> of unit-weight vertices with the edge weights
  \<open>3, 1, 2\<close>; vertex \<open>0\<close> is in block \<open>0\<close>, the vertices \<open>1, 2, 3\<close> are in block \<open>1\<close>.  The thread
  starts from vertex 1.
\<close>

definition example_path_graph :: graph_access where
  "example_path_graph =
     \<lparr>first_edge = [0, 1, 3, 5, 6],
      node_weight = [1, 1, 1, 1],
      edge_target = [1, 0, 2, 1, 3, 2],
      edge_weight = [3, 3, 1, 1, 2, 2],
      partition_index = [0, 1, 1, 1]\<rparr>"

definition example_path_td :: "unit thread_data_refinement_core" where
  "example_path_td =
     example_td\<lparr>graph := example_path_graph,
                boundary := \<lparr>block_no_nodes = [1, 3], block_weight = [1, 3],
                             bnd_index = build example_path_graph,
                             bnd_edge_cut = build_edge_cut example_path_graph\<rparr>,
                moved_idx := [False, False, False, False],
                start_nodes := [1], parts_weights := [1, 3], parts_sizes := [1, 3]\<rparr>"


section \<open>Rejected moves\<close>







section \<open>The recording loop of the local search\<close>

lemma local_search_record_loop_nonempty:
  "ts \<noteq> [] \<Longrightarrow> local_search_record_loop ts fs m i = Inl Out_of_bounds"
proof (induction ts fs m i rule: local_search_record_loop.induct)
  case (1 ts fs moved_nodes i)
  have rec: "local_search_record_loop ts fs (moved_nodes(ts ! i \<mapsto> (uint32_max, fs ! i))) (i + 1)
               = Inl Out_of_bounds"
    if "i < length ts \<and> i < length fs"
    by (rule "1.IH") (use that "1.prems" in auto)
  show ?case
  proof (cases "i < length ts \<and> i < length fs")
    case True
    have "local_search_record_loop ts fs moved_nodes i
            = local_search_record_loop ts fs (moved_nodes(ts ! i \<mapsto> (uint32_max, fs ! i))) (i + 1)"
      by (subst local_search_record_loop.simps) (use True "1.prems" in simp)
    with rec [OF True] show ?thesis by simp
  next
    case False
    then show ?thesis
      by (subst local_search_record_loop.simps) (use "1.prems" in auto)
  qed
qed

lemma gain_recalculation_record_loop_ok:
  "length fs = length ts \<Longrightarrow>
   \<exists>m'. gain_recalculation_record_loop ts fs m i = Inr m' \<and>
        (\<forall>j. i \<le> j \<and> j < length ts \<longrightarrow> (\<exists>f. m' (ts ! j) = Some (uint32_max, f))) \<and>
        (\<forall>v. v \<notin> set (drop i ts) \<longrightarrow> m' v = m v) \<and>
        (\<forall>v f. m v = Some (uint32_max, f) \<longrightarrow> (\<exists>f'. m' v = Some (uint32_max, f')))"
proof (induction ts fs m i rule: gain_recalculation_record_loop.induct)
  case (1 ts fs moved_nodes i)
  show ?case
  proof (cases "i < length ts")
    case False
    have "gain_recalculation_record_loop ts fs moved_nodes i = Inr moved_nodes"
      by (subst gain_recalculation_record_loop.simps) (use False in simp)
    with False show ?thesis by auto
  next
    case True
    let ?m = "moved_nodes(ts ! i \<mapsto> (uint32_max, fs ! i))"
    have step: "gain_recalculation_record_loop ts fs moved_nodes i
                  = gain_recalculation_record_loop ts fs ?m (i + 1)"
      by (subst gain_recalculation_record_loop.simps) (use True "1.prems" in simp)
    have "\<exists>m'. gain_recalculation_record_loop ts fs ?m (i + 1) = Inr m' \<and>
        (\<forall>j. i + 1 \<le> j \<and> j < length ts \<longrightarrow> (\<exists>f. m' (ts ! j) = Some (uint32_max, f))) \<and>
        (\<forall>v. v \<notin> set (drop (i + 1) ts) \<longrightarrow> m' v = ?m v) \<and>
        (\<forall>v f. ?m v = Some (uint32_max, f) \<longrightarrow> (\<exists>f'. m' v = Some (uint32_max, f')))"
      by (rule "1.IH") (use True "1.prems" in auto)
    then obtain m' where
      run: "gain_recalculation_record_loop ts fs ?m (i + 1) = Inr m'" and
      rec: "\<forall>j. i + 1 \<le> j \<and> j < length ts \<longrightarrow> (\<exists>f. m' (ts ! j) = Some (uint32_max, f))" and
      frame: "\<forall>v. v \<notin> set (drop (i + 1) ts) \<longrightarrow> m' v = ?m v" and
      keep: "\<forall>v f. ?m v = Some (uint32_max, f) \<longrightarrow> (\<exists>f'. m' v = Some (uint32_max, f'))"
      by blast
    have "?m (ts ! i) = Some (uint32_max, fs ! i)" by simp
    with keep have here: "\<exists>f. m' (ts ! i) = Some (uint32_max, f)" by blast
    have a: "\<forall>j. i \<le> j \<and> j < length ts \<longrightarrow> (\<exists>f. m' (ts ! j) = Some (uint32_max, f))"
    proof (intro allI impI)
      fix j assume j: "i \<le> j \<and> j < length ts"
      show "\<exists>f. m' (ts ! j) = Some (uint32_max, f)"
      proof (cases "j = i")
        case True
        with here show ?thesis by simp
      next
        case False
        with j have "i + 1 \<le> j \<and> j < length ts" by simp
        with rec show ?thesis by blast
      qed
    qed
    have dr: "drop i ts = ts ! i # drop (i + 1) ts"
      using True by (simp add: Cons_nth_drop_Suc)
    have b: "\<forall>v. v \<notin> set (drop i ts) \<longrightarrow> m' v = moved_nodes v"
    proof (intro allI impI)
      fix v assume "v \<notin> set (drop i ts)"
      with dr have "v \<noteq> ts ! i" "v \<notin> set (drop (i + 1) ts)" by auto
      with frame show "m' v = moved_nodes v" by simp
    qed
    have c: "\<forall>v f. moved_nodes v = Some (uint32_max, f) \<longrightarrow> (\<exists>f'. m' v = Some (uint32_max, f'))"
    proof (intro allI impI)
      fix v f assume "moved_nodes v = Some (uint32_max, f)"
      then have "\<exists>g. ?m v = Some (uint32_max, g)" by simp
      then show "\<exists>f'. m' v = Some (uint32_max, f')" using keep by blast
    qed
    from run a b c step show ?thesis by simp
  qed
qed

text \<open>
  C6.  With a single surviving move, of node 1 out of block 0, the recording loop of
  \<open>local_search_from_one_node\<close> records the move, runs on with \<open>i = 1\<close>, and reads
  \<open>transpositions[1]\<close> past the end of the vector: it does not end after one iteration per
  element, and it does not return the map that the loop with the condition
  \<open>i < transpositions.size()\<close> returns on the same vectors.
\<close>

theorem local_search_record_loop_runs_past_end:
  "local_search_record_loop [1] [0] Map.empty 0 = Inl Out_of_bounds
   \<and> gain_recalculation_record_loop [1] [0] Map.empty 0 = Inr [1 \<mapsto> (uint32_max, 0)]"
proof -
  have "gain_recalculation_record_loop [1] [0] [1 \<mapsto> (uint32_max, 0)] 1
          = Inr [1 \<mapsto> (uint32_max, 0)]"
    by (subst gain_recalculation_record_loop.simps) simp
  then have "gain_recalculation_record_loop [1] [0] Map.empty 0 = Inr [1 \<mapsto> (uint32_max, 0)]"
    by (subst gain_recalculation_record_loop.simps) simp
  then show ?thesis
    by (simp add: local_search_record_loop_nonempty)
qed


section \<open>The exploration phase: what a round touches\<close>

lemma fold_preserves:
  assumes "\<And>x s. g (f x s) = g s"
  shows "g (fold f xs s) = g s"
  using assms by (induction xs arbitrary: s) simp_all

lemma bind_err_Inr:
  "bind_err m f = Inr y \<longleftrightarrow> (\<exists>x. m = Inr x \<and> f x = Inr y)"
  by (cases m) (simp_all add: bind_err_def)

subsection \<open>Shared graph and boundary\<close>

lemma init_queue_node_shared:
  "graph (init_queue_node ext node td) = graph td \<and> boundary (init_queue_node ext node td) = boundary td"
  by (simp add: init_queue_node_def Let_def)

lemma init_queue_with_boundary_shared:
  "graph (init_queue_with_boundary ext td) = graph td
   \<and> boundary (init_queue_with_boundary ext td) = boundary td"
proof -
  have "graph (fold (init_queue_node ext) xs s) = graph s" for xs s
    by (rule fold_preserves) (simp add: init_queue_node_shared)
  moreover have "boundary (fold (init_queue_node ext) xs s) = boundary s" for xs s
    by (rule fold_preserves) (simp add: init_queue_node_shared)
  ultimately show ?thesis
    by (simp add: init_queue_with_boundary_def Let_def)
qed

lemma local_move_update_neighbour_shared:
  "graph (local_move_update_neighbour ext e td) = graph td
   \<and> boundary (local_move_update_neighbour ext e td) = boundary td"
  by (simp add: local_move_update_neighbour_def Let_def)

lemma local_move_node_shared:
  assumes "local_move_node ext td node from gain = Inr (ok, to, td')"
  shows "graph td' = graph td \<and> boundary td' = boundary td"
proof -
  have g: "graph (fold (local_move_update_neighbour ext) xs s) = graph s" for xs s
    by (rule fold_preserves) (simp add: local_move_update_neighbour_shared)
  have b: "boundary (fold (local_move_update_neighbour ext) xs s) = boundary s" for xs s
    by (rule fold_preserves) (simp add: local_move_update_neighbour_shared)
  from assms show ?thesis
    by (auto simp: local_move_node_def Let_def g b set_local_partition_def split: if_splits)
qed

lemma local_move_back_node_shared:
  "graph (local_move_back_node td node from to) = graph td
   \<and> boundary (local_move_back_node td node from to) = boundary td"
  by (simp add: local_move_back_node_def Let_def)

lemma unroll_moves_loop_shared:
  "unroll_moves_loop td m u = Inr (td', u') \<Longrightarrow> graph td' = graph td \<and> boundary td' = boundary td"
proof (induction td m u rule: unroll_moves_loop.induct)
  case (1 td m u)
  show ?case
  proof (cases "to_uint32 (int u + m + 1) < length (transpositions td)")
    case False
    with "1.prems" show ?thesis
      by (subst (asm) unroll_moves_loop.simps) simp
  next
    case True
    let ?i = "length (transpositions td) - 1 - u"
    let ?td = "local_move_back_node td (transpositions td ! ?i) (from_partitions td ! ?i)
                 (to_partitions td ! ?i)"
    from "1.prems" True have
      rng: "u < length (transpositions td) \<and> ?i < length (from_partitions td)
              \<and> ?i < length (to_partitions td)"
      by (subst (asm) unroll_moves_loop.simps) (auto split: if_splits)
    with "1.prems" True have run: "unroll_moves_loop ?td m (u + 1) = Inr (td', u')"
      by (subst (asm) unroll_moves_loop.simps) (simp add: Let_def)
    have "graph td' = graph ?td \<and> boundary td' = boundary ?td"
      by (rule "1.IH" [OF True rng refl refl refl refl run])
    then show ?thesis
      by (simp add: local_move_back_node_shared)
  qed
qed

lemma round_accept_shared:
  "round_accept ext pm st node from to gain td2 = Inr r \<Longrightarrow>
   (r = Break st' \<or> r = Continue st') \<Longrightarrow>
   graph (rs_td st') = graph td2 \<and> boundary (rs_td st') = boundary td2"
  by (auto simp: round_accept_def Let_def split: if_splits)

lemma round_step_shared:
  assumes "round_step ext pm st = Inr r" and "r = Break st' \<or> r = Continue st'"
  shows "graph (rs_td st') = graph (rs_td st) \<and> boundary (rs_td st') = boundary (rs_td st)"
proof -
  let ?td = "rs_td st"
  show ?thesis
  proof (cases "queue ?td = [] \<or> num_threads_finished ?td > 0
                \<or> fst (search_should_stop ext (stopping_rule ?td)
                     (if rs_min_cut_index st - pm \<ge> 0 then to_uint32 (rs_min_cut_index st - pm) else 0)
                     (to_uint32 (rs_number_of_swaps st)) (step_limit ?td))")
    case True
    with assms show ?thesis
      by (auto simp: round_step_def Let_def split: if_splits)
  next
    case False
    let ?r = "search_should_stop ext (stopping_rule ?td)
                (if rs_min_cut_index st - pm \<ge> 0 then to_uint32 (rs_min_cut_index st - pm) else 0)
                (to_uint32 (rs_number_of_swaps st)) (step_limit ?td)"
    let ?td0 = "?td\<lparr>stopping_rule := snd ?r\<rparr>"
    let ?gain = "pq_maxValue (queue ?td0)"
    let ?node = "fst (pq_deleteMax (queue ?td0))"
    let ?td1 = "?td0\<lparr>queue := snd (pq_deleteMax (queue ?td0))\<rparr>"
    let ?from = "get_local_partition ?td1 ?node"
    from assms(1) False obtain ok to td2 where
      mv: "local_move_node ext ?td1 ?node ?from ?gain = Inr (ok, to, td2)" and
      rest: "(if ok then round_accept ext pm st ?node ?from to ?gain td2
              else Inr (Continue (st\<lparr>rs_td := td2, rs_number_of_swaps := rs_number_of_swaps st - 1\<rparr>)))
             = Inr r"
      by (auto simp: round_step_def Let_def bind_err_Inr split: if_splits)
    from local_move_node_shared [OF mv] have
      s2: "graph td2 = graph ?td \<and> boundary td2 = boundary ?td" by simp
    show ?thesis
    proof (cases ok)
      case True
      with rest have "round_accept ext pm st ?node ?from to ?gain td2 = Inr r" by simp
      from round_accept_shared [OF this assms(2)] s2 show ?thesis by simp
    next
      case False
      with rest assms(2) s2 show ?thesis by auto
    qed
  qed
qed

lemma round_loop_shared:
  "round_loop ext mx pm st i = Inr (st', i') \<Longrightarrow>
   graph (rs_td st') = graph (rs_td st) \<and> boundary (rs_td st') = boundary (rs_td st)"
proof (induction ext mx pm st i rule: round_loop.induct)
  case (1 ext mx pm st i)
  show ?case
  proof (cases "i < mx")
    case False
    with "1.prems" show ?thesis
      by (subst (asm) round_loop.simps) simp
  next
    case True
    show ?thesis
    proof (cases "round_step ext pm st")
      case (Inl e)
      with "1.prems" True show ?thesis
        by (subst (asm) round_loop.simps) simp
    next
      case (Inr r)
      show ?thesis
      proof (cases r)
        case (Break s)
        with "1.prems" True Inr have "st' = s"
          by (subst (asm) round_loop.simps) simp
        with round_step_shared [OF Inr] Break show ?thesis by simp
      next
        case (Continue s)
        let ?s = "s\<lparr>rs_number_of_swaps := rs_number_of_swaps s + 1\<rparr>"
        from "1.prems" True Inr Continue have run: "round_loop ext mx pm ?s (i + 1) = Inr (st', i')"
          by (subst (asm) round_loop.simps) simp
        have "graph (rs_td st') = graph (rs_td ?s) \<and> boundary (rs_td st') = boundary (rs_td ?s)"
          by (rule "1.IH" [OF True Inr Continue run])
        with round_step_shared [OF Inr] Continue show ?thesis by simp
      qed
    qed
  qed
qed

lemma push_sentinels_shared:
  "graph (push_sentinels td) = graph td \<and> boundary (push_sentinels td) = boundary td"
  by (simp add: push_sentinels_def)

lemma single_round_shared:
  assumes "single_kway_refinement_round_internal ext td = Inr (res, td')"
  shows "graph td' = graph td \<and> boundary td' = boundary td"
proof -
  let ?td = "init_queue_with_boundary ext (td\<lparr>queue := []\<rparr>)"
  have i: "graph ?td = graph td \<and> boundary ?td = boundary td"
    using init_queue_with_boundary_shared [of ext "td\<lparr>queue := []\<rparr>"] by simp
  show ?thesis
  proof (cases "queue ?td = []")
    case True
    with assms have "td' = push_sentinels ?td"
      by (simp add: single_kway_refinement_round_internal_def Let_def)
    with i show ?thesis by (simp add: push_sentinels_shared)
  next
    case False
    let ?mx = "if max_number_of_moves (config ?td) \<noteq> - 1
               then to_uint32 (max_number_of_moves (config ?td))
               else number_of_nodes (graph ?td)"
    let ?td1 = "?td\<lparr>config := (config ?td)\<lparr>kway_adaptive_limits_alpha := 10\<rparr>\<rparr>"
    let ?td2 = "?td1\<lparr>stopping_rule := new_stop_rule ext (config ?td1)\<rparr>"
    let ?pm = "int (length (transpositions ?td2))"
    let ?st = "\<lparr>rs_td = ?td2, rs_cut = int_max div 2, rs_best_cut = int_max div 2,
                 rs_min_cut_index = ?pm - 1, rs_number_of_swaps = 0\<rparr>"
    from assms False obtain st' movements td4 unrolled where
      loop: "round_loop ext ?mx ?pm ?st 0 = Inr (st', movements)" and
      unroll: "unroll_moves
                 (if movements = ?mx
                  then (rs_td st')\<lparr>stop_max_number_of_swaps := stop_max_number_of_swaps (rs_td st') + 1\<rparr>
                  else rs_td st') (rs_min_cut_index st') = Inr (td4, unrolled)" and
      fin: "td' = push_sentinels (td4\<lparr>accepted_movements := accepted_movements td4 - int unrolled,
                                       nodes_partitions := []\<rparr>)"
      by (auto simp: single_kway_refinement_round_internal_def Let_def bind_err_Inr
          simp del: One_nat_def split: if_splits)
    from round_loop_shared [OF loop] i have
      a: "graph (rs_td st') = graph td \<and> boundary (rs_td st') = boundary td" by simp
    from unroll_moves_loop_shared [OF unroll [unfolded unroll_moves_def]] a have
      "graph td4 = graph td \<and> boundary td4 = boundary td" by (simp split: if_splits)
    with fin show ?thesis by (simp add: push_sentinels_shared)
  qed
qed


subsection \<open>The four logs\<close>

lemma logs_grow_same: "logs td' = logs td \<Longrightarrow> logs_grow td td'"
  unfolding logs_grow_def logs_def
  by (rule exI [of _ "[]"], rule exI [of _ "[]"], rule exI [of _ "[]"], rule exI [of _ "[]"]) simp

lemma logs_grow_trans:
  assumes "logs_grow a b" and "logs_grow b c"
  shows "logs_grow a c"
proof -
  from assms(1) obtain ns fs ts gs where
    1: "length fs = length ns" "length ts = length ns" "length gs = length ns"
       "logs b = (transpositions a @ ns, from_partitions a @ fs, to_partitions a @ ts, gains a @ gs)"
    unfolding logs_grow_def by blast
  from assms(2) obtain ns' fs' ts' gs' where
    2: "length fs' = length ns'" "length ts' = length ns'" "length gs' = length ns'"
       "logs c = (transpositions b @ ns', from_partitions b @ fs', to_partitions b @ ts', gains b @ gs')"
    unfolding logs_grow_def by blast
  from 1(4) 2(4) have
    "logs c = (transpositions a @ (ns @ ns'), from_partitions a @ (fs @ fs'),
               to_partitions a @ (ts @ ts'), gains a @ (gs @ gs'))"
    by (simp add: logs_def)
  moreover from 1 2 have
    "length (fs @ fs') = length (ns @ ns')" "length (ts @ ts') = length (ns @ ns')"
    "length (gs @ gs') = length (ns @ ns')" by simp_all
  ultimately show ?thesis unfolding logs_grow_def by blast
qed

lemma logs_grow_cong: "logs_grow a b \<Longrightarrow> logs c = logs b \<Longrightarrow> logs_grow a c"
  by (simp add: logs_grow_def)

lemma init_queue_node_logs: "logs (init_queue_node ext node td) = logs td"
  by (simp add: init_queue_node_def Let_def logs_def)

lemma init_queue_with_boundary_logs: "logs (init_queue_with_boundary ext td) = logs td"
proof -
  have "logs (fold (init_queue_node ext) xs s) = logs s" for xs s
    by (rule fold_preserves) (simp add: init_queue_node_logs)
  then show ?thesis
    by (simp add: init_queue_with_boundary_def Let_def) (simp add: logs_def)
qed

lemma local_move_update_neighbour_logs: "logs (local_move_update_neighbour ext e td) = logs td"
  by (simp add: local_move_update_neighbour_def Let_def logs_def)

lemma local_move_node_logs:
  assumes "local_move_node ext td node from gain = Inr (ok, to, td')"
  shows "logs td' = logs td"
proof -
  have "logs (fold (local_move_update_neighbour ext) xs s) = logs s" for xs s
    by (rule fold_preserves) (simp add: local_move_update_neighbour_logs)
  with assms show ?thesis
    by (auto simp: local_move_node_def Let_def set_local_partition_def split: if_splits)
      (simp add: logs_def)
qed

lemma local_move_back_node_logs: "logs (local_move_back_node td node from to) = logs td"
  by (simp add: local_move_back_node_def Let_def logs_def)

lemma unroll_moves_loop_logs:
  "unroll_moves_loop td m u = Inr (td', u') \<Longrightarrow> logs td' = logs td"
proof (induction td m u rule: unroll_moves_loop.induct)
  case (1 td m u)
  show ?case
  proof (cases "to_uint32 (int u + m + 1) < length (transpositions td)")
    case False
    with "1.prems" show ?thesis
      by (subst (asm) unroll_moves_loop.simps) simp
  next
    case True
    let ?i = "length (transpositions td) - 1 - u"
    let ?td = "local_move_back_node td (transpositions td ! ?i) (from_partitions td ! ?i)
                 (to_partitions td ! ?i)"
    from "1.prems" True have
      rng: "u < length (transpositions td) \<and> ?i < length (from_partitions td)
              \<and> ?i < length (to_partitions td)"
      by (subst (asm) unroll_moves_loop.simps) (auto split: if_splits)
    with "1.prems" True have run: "unroll_moves_loop ?td m (u + 1) = Inr (td', u')"
      by (subst (asm) unroll_moves_loop.simps) (simp add: Let_def)
    have "logs td' = logs ?td"
      by (rule "1.IH" [OF True rng refl refl refl refl run])
    then show ?thesis
      by (simp add: local_move_back_node_logs)
  qed
qed

lemma round_accept_logs:
  assumes "round_accept ext pm st node from to gain td2 = Inr r"
    and "r = Break st' \<or> r = Continue st'"
  shows "logs (rs_td st') = (transpositions td2 @ [node], from_partitions td2 @ [from],
                             to_partitions td2 @ [to], gains td2 @ [gain])"
  using assms by (auto simp: round_accept_def Let_def logs_def split: if_splits)

lemma round_step_logs:
  assumes "round_step ext pm st = Inr r" and "r = Break st' \<or> r = Continue st'"
  shows "logs_grow (rs_td st) (rs_td st')"
proof -
  let ?td = "rs_td st"
  show ?thesis
  proof (cases "queue ?td = [] \<or> num_threads_finished ?td > 0
                \<or> fst (search_should_stop ext (stopping_rule ?td)
                     (if rs_min_cut_index st - pm \<ge> 0 then to_uint32 (rs_min_cut_index st - pm) else 0)
                     (to_uint32 (rs_number_of_swaps st)) (step_limit ?td))")
    case True
    with assms have "logs (rs_td st') = logs ?td"
      by (auto simp: round_step_def Let_def logs_def split: if_splits)
    then show ?thesis by (rule logs_grow_same)
  next
    case False
    let ?r = "search_should_stop ext (stopping_rule ?td)
                (if rs_min_cut_index st - pm \<ge> 0 then to_uint32 (rs_min_cut_index st - pm) else 0)
                (to_uint32 (rs_number_of_swaps st)) (step_limit ?td)"
    let ?td0 = "?td\<lparr>stopping_rule := snd ?r\<rparr>"
    let ?gain = "pq_maxValue (queue ?td0)"
    let ?node = "fst (pq_deleteMax (queue ?td0))"
    let ?td1 = "?td0\<lparr>queue := snd (pq_deleteMax (queue ?td0))\<rparr>"
    let ?from = "get_local_partition ?td1 ?node"
    from assms(1) False obtain ok to td2 where
      mv: "local_move_node ext ?td1 ?node ?from ?gain = Inr (ok, to, td2)" and
      rest: "(if ok then round_accept ext pm st ?node ?from to ?gain td2
              else Inr (Continue (st\<lparr>rs_td := td2, rs_number_of_swaps := rs_number_of_swaps st - 1\<rparr>)))
             = Inr r"
      by (auto simp: round_step_def Let_def bind_err_Inr split: if_splits)
    from local_move_node_logs [OF mv] have s2: "logs td2 = logs (rs_td st)"
      by (simp add: logs_def)
    show ?thesis
    proof (cases ok)
      case True
      with rest have "round_accept ext pm st ?node ?from to ?gain td2 = Inr r" by simp
      from round_accept_logs [OF this assms(2)] s2
      have "logs (rs_td st') = (transpositions ?td @ [?node], from_partitions ?td @ [?from],
                               to_partitions ?td @ [to], gains ?td @ [?gain])"
        by (simp add: logs_def)
      then show ?thesis
        unfolding logs_grow_def
        by (intro exI [of _ "[?node]"] exI [of _ "[?from]"] exI [of _ "[to]"] exI [of _ "[?gain]"])
          simp
    next
      case False
      with rest assms(2) have "rs_td st' = td2" by auto
      with logs_grow_same [OF s2] show ?thesis by simp
    qed
  qed
qed

lemma round_loop_logs:
  "round_loop ext mx pm st i = Inr (st', i') \<Longrightarrow> logs_grow (rs_td st) (rs_td st')"
proof (induction ext mx pm st i rule: round_loop.induct)
  case (1 ext mx pm st i)
  show ?case
  proof (cases "i < mx")
    case False
    with "1.prems" have "st' = st"
      by (subst (asm) round_loop.simps) simp
    then show ?thesis by (simp add: logs_grow_same)
  next
    case True
    show ?thesis
    proof (cases "round_step ext pm st")
      case (Inl e)
      with "1.prems" True show ?thesis
        by (subst (asm) round_loop.simps) simp
    next
      case (Inr r)
      show ?thesis
      proof (cases r)
        case (Break s)
        with "1.prems" True Inr have "st' = s"
          by (subst (asm) round_loop.simps) simp
        with round_step_logs [OF Inr] Break show ?thesis by simp
      next
        case (Continue s)
        let ?s = "s\<lparr>rs_number_of_swaps := rs_number_of_swaps s + 1\<rparr>"
        from "1.prems" True Inr Continue have run: "round_loop ext mx pm ?s (i + 1) = Inr (st', i')"
          by (subst (asm) round_loop.simps) simp
        have "logs_grow (rs_td ?s) (rs_td st')"
          by (rule "1.IH" [OF True Inr Continue run])
        moreover from round_step_logs [OF Inr] Continue have "logs_grow (rs_td st) (rs_td ?s)"
          by simp
        ultimately show ?thesis by (rule logs_grow_trans [rotated])
      qed
    qed
  qed
qed

lemma single_round_logs:
  assumes "single_kway_refinement_round_internal ext td = Inr (res, td')"
  shows "\<exists>td''. logs_grow td td'' \<and> td' = push_sentinels td''"
proof -
  let ?td = "init_queue_with_boundary ext (td\<lparr>queue := []\<rparr>)"
  have i: "logs ?td = logs td"
    using init_queue_with_boundary_logs [of ext "td\<lparr>queue := []\<rparr>"] by (simp add: logs_def)
  show ?thesis
  proof (cases "queue ?td = []")
    case True
    with assms have "td' = push_sentinels ?td"
      by (simp add: single_kway_refinement_round_internal_def Let_def)
    with i show ?thesis using logs_grow_same by blast
  next
    case False
    let ?mx = "if max_number_of_moves (config ?td) \<noteq> - 1
               then to_uint32 (max_number_of_moves (config ?td))
               else number_of_nodes (graph ?td)"
    let ?td1 = "?td\<lparr>config := (config ?td)\<lparr>kway_adaptive_limits_alpha := 10\<rparr>\<rparr>"
    let ?td2 = "?td1\<lparr>stopping_rule := new_stop_rule ext (config ?td1)\<rparr>"
    let ?pm = "int (length (transpositions ?td2))"
    let ?st = "\<lparr>rs_td = ?td2, rs_cut = int_max div 2, rs_best_cut = int_max div 2,
                 rs_min_cut_index = ?pm - 1, rs_number_of_swaps = 0\<rparr>"
    from assms False obtain st' movements td4 unrolled where
      loop: "round_loop ext ?mx ?pm ?st 0 = Inr (st', movements)" and
      unroll: "unroll_moves
                 (if movements = ?mx
                  then (rs_td st')\<lparr>stop_max_number_of_swaps := stop_max_number_of_swaps (rs_td st') + 1\<rparr>
                  else rs_td st') (rs_min_cut_index st') = Inr (td4, unrolled)" and
      fin: "td' = push_sentinels (td4\<lparr>accepted_movements := accepted_movements td4 - int unrolled,
                                       nodes_partitions := []\<rparr>)"
      by (auto simp: single_kway_refinement_round_internal_def Let_def bind_err_Inr
          simp del: One_nat_def split: if_splits)
    have "logs ?td2 = logs td" using i by (simp add: logs_def)
    then have "logs_grow td ?td2" by (rule logs_grow_same)
    with round_loop_logs [OF loop] have a: "logs_grow td (rs_td st')"
      using logs_grow_trans by fastforce
    from unroll_moves_loop_logs [OF unroll [unfolded unroll_moves_def]]
    have "logs td4 = logs (rs_td st')" by (simp add: logs_def split: if_splits)
    then have "logs (td4\<lparr>accepted_movements := accepted_movements td4 - int unrolled,
                           nodes_partitions := []\<rparr>) = logs (rs_td st')"
      by (simp add: logs_def)
    with a have "logs_grow td (td4\<lparr>accepted_movements := accepted_movements td4 - int unrolled,
                                     nodes_partitions := []\<rparr>)"
      by (rule logs_grow_cong)
    with fin show ?thesis by blast
  qed
qed


subsection \<open>Runs on the small instance\<close>

text \<open>
  A round on the instance, started from the vertices 1 and 2: vertex 2 (gain 0) is moved
  from block 1 to block 0 in the thread's view, the move of vertex 3 is refused because it
  would empty block 1, the queue runs empty, and the move of vertex 2 is unrolled.
\<close>

lemma example_round_run:
  "case single_kway_refinement_round example_ext example_td of
     Inl e \<Rightarrow> False
   | Inr (res, td') \<Rightarrow>
       res = (0, - 1, 2) \<and>
       transpositions td' = [2, sentinel] \<and> from_partitions td' = [1, sentinel] \<and>
       to_partitions td' = [0, sentinel] \<and> gains td' = [0, signed_sentinel] \<and>
       parts_weights td' = [3, 2] \<and> parts_sizes td' = [3, 2] \<and>
       moved_idx td' = [False, True, True, True, False]"
  by code_simp

lemma example_round:
  "\<exists>td'. single_kway_refinement_round example_ext example_td = Inr ((0, - 1, 2), td') \<and>
       transpositions td' = [2, sentinel] \<and> from_partitions td' = [1, sentinel] \<and>
       to_partitions td' = [0, sentinel] \<and> gains td' = [0, signed_sentinel] \<and>
       parts_weights td' = [3, 2] \<and> parts_sizes td' = [3, 2]"
proof (cases "single_kway_refinement_round example_ext example_td")
  case (Inl e)
  with example_round_run show ?thesis by simp
next
  case (Inr p)
  obtain res td' where "p = (res, td')" by (cases p)
  with Inr example_round_run show ?thesis by simp
qed

lemma example_local_move_run:
  "case local_move_node example_ext example_td 2 1 0 of
     Inl e \<Rightarrow> False
   | Inr (ok, to, td') \<Rightarrow>
       ok \<and> to = 0 \<and> nodes_partitions td' = [(2, 0)] \<and> parts_weights td' = [4, 1] \<and>
       parts_sizes td' = [4, 1] \<and> queue td' = [(3, 1)]"
  by code_simp

lemma example_local_move:
  "\<exists>td'. local_move_node example_ext example_td 2 1 0 = Inr (True, 0, td') \<and>
       nodes_partitions td' = [(2, 0)] \<and> parts_weights td' = [4, 1] \<and>
       parts_sizes td' = [4, 1] \<and> queue td' = [(3, 1)]"
proof (cases "local_move_node example_ext example_td 2 1 0")
  case (Inl e)
  with example_local_move_run show ?thesis by simp
next
  case (Inr p)
  obtain ok to td' where "p = (ok, to, td')" by (cases p)
  with Inr example_local_move_run show ?thesis by simp
qed

section \<open>The exploration phase leaves the shared state alone\<close>

text \<open>
  C4.  Whenever \<open>local_move_node\<close> returns (accepting the move or not), and whenever
  \<open>single_kway_refinement_round\<close> returns, the shared graph, and so every block label, and the
  shared boundary, and so every entry of the boundary index and every block count and block
  weight, are the ones the call was given.  What a call changes is thread data: the shadow
  labels, the local block sizes and weights, the priority queue, the logs, the claim bits
  \<open>moved_idx\<close> with the list \<open>moved\<close> of claimed vertices, and counters.
\<close>

theorem exploration_leaves_shared_state:
  "(\<forall>ok to td'. local_move_node ext td node from gain = Inr (ok, to, td') \<longrightarrow>
       graph td' = graph td \<and> boundary td' = boundary td)
   \<and> (\<forall>res td'. single_kway_refinement_round ext td = Inr (res, td') \<longrightarrow>
       graph td' = graph td \<and> boundary td' = boundary td)"
proof -
  have 1: "graph td' = graph td \<and> boundary td' = boundary td"
    if "local_move_node ext td node from gain = Inr (ok, to, td')" for ok to td'
    using that by (rule local_move_node_shared)
  have 2: "graph td' = graph td \<and> boundary td' = boundary td"
    if "single_kway_refinement_round ext td = Inr (res, td')" for res td'
  proof -
    from that have "single_kway_refinement_round_internal ext td = Inr (res, td')"
      by (simp add: single_kway_refinement_round_def)
    then show ?thesis by (rule single_round_shared)
  qed
  from 1 2 show ?thesis by blast
qed

text \<open>
  On the instance: vertex 2 is moved from block 1 to block 0 in the thread's view, and a
  round is run; the labels of the shared graph stay \<open>[0, 0, 1, 1, 0]\<close>.
\<close>

theorem exploration_leaves_shared_state_witness:
  "(\<exists>ok td'. local_move_node example_ext example_td 2 1 0 = Inr (ok, 0, td')
       \<and> partition_index (graph td') = [0, 0, 1, 1, 0] \<and> boundary td' = example_boundary)
   \<and> (\<exists>res td'. single_kway_refinement_round example_ext example_td = Inr (res, td')
       \<and> partition_index (graph td') = [0, 0, 1, 1, 0] \<and> boundary td' = example_boundary)"
proof -
  have g: "partition_index (graph example_td) = [0, 0, 1, 1, 0]"
    by (simp add: example_td_def example_graph_def)
  have b: "boundary example_td = example_boundary"
    by (simp add: example_td_def)
  obtain ok td' where mv: "local_move_node example_ext example_td 2 1 0 = Inr (ok, 0, td')"
    using example_local_move by blast
  from exploration_leaves_shared_state [of example_ext example_td 2 1 0] mv
  have "graph td' = graph example_td \<and> boundary td' = boundary example_td" by blast
  with mv g b have 1:
    "\<exists>ok td'. local_move_node example_ext example_td 2 1 0 = Inr (ok, 0, td')
       \<and> partition_index (graph td') = [0, 0, 1, 1, 0] \<and> boundary td' = example_boundary"
    by auto
  obtain td'' where
    rd: "single_kway_refinement_round example_ext example_td = Inr ((0, - 1, 2), td'')"
    using example_round by blast
  from exploration_leaves_shared_state [of example_ext example_td 2 1 0] rd
  have "graph td'' = graph example_td \<and> boundary td'' = boundary example_td" by blast
  with g b have "partition_index (graph td'') = [0, 0, 1, 1, 0] \<and> boundary td'' = example_boundary"
    by simp
  with rd have 2:
    "\<exists>res td'. single_kway_refinement_round example_ext example_td = Inr (res, td')
       \<and> partition_index (graph td') = [0, 0, 1, 1, 0] \<and> boundary td' = example_boundary"
    by blast
  from 1 2 show ?thesis by (rule conjI)
qed

section \<open>The four logs after a round\<close>

text \<open>
  C9.  Whenever \<open>single_kway_refinement_round\<close> returns, by the early return on an empty
  queue or at its end, each of the four logs is the log before the call, followed by the
  entries of the moves accepted in the round (the same number in each log), followed by one
  sentinel, which is the last entry.  Hence logs of equal lengths before the call have equal
  lengths after it.
\<close>

theorem single_kway_refinement_round_logs:
  "single_kway_refinement_round ext td = Inr (res, td') \<Longrightarrow>
   (\<exists>ns fs ts gs.
      length fs = length ns \<and> length ts = length ns \<and> length gs = length ns \<and>
      transpositions td' = transpositions td @ ns @ [sentinel] \<and>
      from_partitions td' = from_partitions td @ fs @ [sentinel] \<and>
      to_partitions td' = to_partitions td @ ts @ [sentinel] \<and>
      gains td' = gains td @ gs @ [signed_sentinel])
   \<and> (length (from_partitions td) = length (transpositions td)
        \<and> length (to_partitions td) = length (transpositions td)
        \<and> length (gains td) = length (transpositions td) \<longrightarrow>
      length (from_partitions td') = length (transpositions td')
        \<and> length (to_partitions td') = length (transpositions td')
        \<and> length (gains td') = length (transpositions td'))"
proof -
  assume "single_kway_refinement_round ext td = Inr (res, td')"
  then obtain td'' where g: "logs_grow td td''" and p: "td' = push_sentinels td''"
    using single_round_logs [of ext td res td'] by (auto simp: single_kway_refinement_round_def)
  from g obtain ns fs ts gs where
    len: "length fs = length ns" "length ts = length ns" "length gs = length ns" and
    l: "logs td'' = (transpositions td @ ns, from_partitions td @ fs, to_partitions td @ ts,
                     gains td @ gs)"
    unfolding logs_grow_def by blast
  from l p have eq:
    "transpositions td' = transpositions td @ ns @ [sentinel]"
    "from_partitions td' = from_partitions td @ fs @ [sentinel]"
    "to_partitions td' = to_partitions td @ ts @ [sentinel]"
    "gains td' = gains td @ gs @ [signed_sentinel]"
    by (simp_all add: logs_def push_sentinels_def)
  have "length (from_partitions td) = length (transpositions td)
        \<and> length (to_partitions td) = length (transpositions td)
        \<and> length (gains td) = length (transpositions td) \<longrightarrow>
      length (from_partitions td') = length (transpositions td')
        \<and> length (to_partitions td') = length (transpositions td')
        \<and> length (gains td') = length (transpositions td')"
    using eq len by simp
  with len eq show ?thesis by blast
qed

text \<open>On the instance the round logs the move of vertex 2, unrolls it, and appends the
  sentinels.\<close>

theorem single_kway_refinement_round_logs_witness:
  "\<exists>td'. single_kway_refinement_round example_ext example_td = Inr ((0, - 1, 2), td')
     \<and> transpositions td' = [2, sentinel]
     \<and> (\<exists>ns fs ts gs.
          length fs = length ns \<and> length ts = length ns \<and> length gs = length ns \<and>
          transpositions td' = transpositions example_td @ ns @ [sentinel] \<and>
          from_partitions td' = from_partitions example_td @ fs @ [sentinel] \<and>
          to_partitions td' = to_partitions example_td @ ts @ [sentinel] \<and>
          gains td' = gains example_td @ gs @ [signed_sentinel])
     \<and> length (from_partitions example_td) = length (transpositions example_td)
     \<and> length (to_partitions example_td) = length (transpositions example_td)
     \<and> length (gains example_td) = length (transpositions example_td)
     \<and> length (from_partitions td') = length (transpositions td')
     \<and> length (to_partitions td') = length (transpositions td')
     \<and> length (gains td') = length (transpositions td')"
proof -
  obtain td' where
    rd: "single_kway_refinement_round example_ext example_td = Inr ((0, - 1, 2), td')" and
    ts: "transpositions td' = [2, sentinel]"
    using example_round by blast
  have len: "length (from_partitions example_td) = length (transpositions example_td)
     \<and> length (to_partitions example_td) = length (transpositions example_td)
     \<and> length (gains example_td) = length (transpositions example_td)"
    by (simp add: example_td_def)
  from single_kway_refinement_round_logs [OF rd] len have
    ex: "\<exists>ns fs ts gs.
          length fs = length ns \<and> length ts = length ns \<and> length gs = length ns \<and>
          transpositions td' = transpositions example_td @ ns @ [sentinel] \<and>
          from_partitions td' = from_partitions example_td @ fs @ [sentinel] \<and>
          to_partitions td' = to_partitions example_td @ ts @ [sentinel] \<and>
          gains td' = gains example_td @ gs @ [signed_sentinel]" and
    len': "length (from_partitions td') = length (transpositions td')
     \<and> length (to_partitions td') = length (transpositions td')
     \<and> length (gains td') = length (transpositions td')"
    by simp_all
  show ?thesis
    by (rule exI [of _ td']) (use rd ts ex len len' in simp)
qed


section \<open>A move and its way back\<close>

lemma back_move_counts: "back_counts (move_counts c f t d) f t d = c"
proof (rule nth_equalityI)
  show "length (back_counts (move_counts c f t d) f t d) = length c"
    by (simp add: back_counts_def move_counts_def Let_def)
next
  fix i
  assume "i < length (back_counts (move_counts c f t d) f t d)"
  then have i: "i < length c"
    by (simp add: back_counts_def move_counts_def Let_def)
  show "back_counts (move_counts c f t d) f t d ! i = c ! i"
    by (cases "f < length c"; cases "t < length c")
      (use i in \<open>auto simp: back_counts_def move_counts_def Let_def nth_list_update\<close>)
qed

lemma same_shared_refl: "same_shared td td"
  by (simp add: same_shared_def)

lemma same_shared_sym: "same_shared a b \<Longrightarrow> same_shared b a"
  by (simp add: same_shared_def)

lemma same_shared_trans: "same_shared a b \<Longrightarrow> same_shared b c \<Longrightarrow> same_shared a c"
  by (simp add: same_shared_def)

lemma relaxed_move_node_True:
  assumes "relaxed_move_node td n f t = Inr (True, td1)"
  shows "getPartitionIndex (graph td) n = f"
    and "graph td1 = setPartitionIndex (graph td) n t"
    and "block_no_nodes (boundary td1) = move_counts (block_no_nodes (boundary td)) f t 1"
    and "block_weight (boundary td1)
           = move_counts (block_weight (boundary td)) f t (getNodeWeight (graph td) n)"
    and "bnd_index (boundary td1)
           = bnd_index (postMovedBoundaryNodeUpdates (setPartitionIndex (graph td) n t) n
               \<lparr>pair_k = cfg_k (config td), lhs = f, rhs = t\<rparr> (boundary td))"
    and "config td1 = config td"
    and "logs td1 = logs td"
    and "rnd_pos td1 = rnd_pos td" and "rnd_bits td1 = rnd_bits td"
    and "bnd_edge_cut (boundary td1)
           = bnd_edge_cut (postMovedBoundaryNodeUpdates (setPartitionIndex (graph td) n t) n
               \<lparr>pair_k = cfg_k (config td), lhs = f, rhs = t\<rparr> (boundary td))"
  using assms
  by (auto simp: relaxed_move_node_def Let_def move_counts_def logs_def
      postMovedBoundaryNodeUpdates_def getBlockNoNodes_def setBlockNoNodes_def
      getBlockWeight_def setBlockWeight_def split: if_splits)

lemma relaxed_move_node_False:
  assumes "relaxed_move_node td n f t = Inr (False, td1)"
  shows "td1 = td"
  using assms by (auto simp: relaxed_move_node_def Let_def split: if_splits)

lemma relaxed_move_node_back_Inr:
  assumes "relaxed_move_node_back td n f t = Inr td1"
  shows "getPartitionIndex (graph td) n = t"
    and "graph td1 = setPartitionIndex (graph td) n f"
    and "block_no_nodes (boundary td1) = back_counts (block_no_nodes (boundary td)) f t 1"
    and "block_weight (boundary td1)
           = back_counts (block_weight (boundary td)) f t (getNodeWeight (graph td) n)"
    and "bnd_index (boundary td1)
           = bnd_index (postMovedBoundaryNodeUpdates (setPartitionIndex (graph td) n f) n
               \<lparr>pair_k = cfg_k (config td), lhs = f, rhs = t\<rparr> (boundary td))"
    and "config td1 = config td"
    and "logs td1 = logs td"
    and "bnd_edge_cut (boundary td1)
           = bnd_edge_cut (postMovedBoundaryNodeUpdates (setPartitionIndex (graph td) n f) n
               \<lparr>pair_k = cfg_k (config td), lhs = f, rhs = t\<rparr> (boundary td))"
  using assms
  by (auto simp: relaxed_move_node_back_def Let_def back_counts_def logs_def
      postMovedBoundaryNodeUpdates_def getBlockNoNodes_def setBlockNoNodes_def
      getBlockWeight_def setBlockWeight_def getNodeWeight_def setPartitionIndex_def
      split: if_splits)

lemma relaxed_move_node_back_returns:
  "getPartitionIndex (graph td) n = t \<Longrightarrow> \<exists>td1. relaxed_move_node_back td n f t = Inr td1"
  by (simp add: relaxed_move_node_back_def Let_def)

text \<open>Both functions read the shared state only.\<close>

lemma relaxed_move_node_same_shared:
  assumes "same_shared a b"
  shows "(relaxed_move_node a n f t = Inl e \<longleftrightarrow> relaxed_move_node b n f t = Inl e)
         \<and> (\<forall>ok a'. relaxed_move_node a n f t = Inr (ok, a') \<longrightarrow>
               (\<exists>b'. relaxed_move_node b n f t = Inr (ok, b') \<and> same_shared a' b'))"
  using assms
  by (auto simp: relaxed_move_node_def Let_def same_shared_def getBlockNoNodes_def
      setBlockNoNodes_def getBlockWeight_def setBlockWeight_def postMovedBoundaryNodeUpdates_def
      split: if_splits)

lemma relaxed_move_node_back_same_shared:
  assumes "same_shared a b"
  shows "(relaxed_move_node_back a n f t = Inl e \<longleftrightarrow> relaxed_move_node_back b n f t = Inl e)
         \<and> (\<forall>a'. relaxed_move_node_back a n f t = Inr a' \<longrightarrow>
               (\<exists>b'. relaxed_move_node_back b n f t = Inr b' \<and> same_shared a' b'))"
  using assms
  by (auto simp: relaxed_move_node_back_def Let_def same_shared_def getBlockNoNodes_def
      setBlockNoNodes_def getBlockWeight_def setBlockWeight_def postMovedBoundaryNodeUpdates_def
      split: if_splits)

text \<open>Moving a node and moving it back restores the labels, the counts and the weights.\<close>

lemma relaxed_round_trip:
  assumes mv: "relaxed_move_node td n f t = Inr (True, td1)"
    and n: "n < length (partition_index (graph td))"
  shows "\<exists>td2. relaxed_move_node_back td1 n f t = Inr td2 \<and> same_shared td2 td"
proof -
  note m = relaxed_move_node_True [OF mv]
  have lab: "getPartitionIndex (graph td1) n = t"
    using m(2) n by (simp add: getPartitionIndex_def setPartitionIndex_def)
  then obtain td2 where bk: "relaxed_move_node_back td1 n f t = Inr td2"
    using relaxed_move_node_back_returns by blast
  note b = relaxed_move_node_back_Inr [OF bk]
  have nw: "getNodeWeight (graph td1) n = getNodeWeight (graph td) n"
    using m(2) by (simp add: getNodeWeight_def setPartitionIndex_def)
  have "(partition_index (graph td))[n := f] = partition_index (graph td)"
    using m(1) list_update_id [of "partition_index (graph td)" n]
    by (simp add: getPartitionIndex_def)
  then have "graph td2 = graph td"
    using b(2) m(2) by (simp add: setPartitionIndex_def)
  moreover have "block_no_nodes (boundary td2) = block_no_nodes (boundary td)"
    using b(3) m(3) by (simp add: back_move_counts)
  moreover have "block_weight (boundary td2) = block_weight (boundary td)"
    using b(4) m(4) nw by (simp add: back_move_counts)
  moreover have "config td2 = config td"
    using b(6) m(6) by simp
  ultimately have "same_shared td2 td" by (simp add: same_shared_def)
  with bk show ?thesis by blast
qed


section \<open>Sequences of committed moves and their unrolling\<close>

lemma foldM_err_append:
  "foldM_err f (xs @ ys) s = (case foldM_err f xs s of Inl e \<Rightarrow> Inl e | Inr s' \<Rightarrow> foldM_err f ys s')"
  by (induction xs arbitrary: s) (auto split: sum.splits)

lemma commit_moves_append:
  "commit_moves td (xs @ ys) =
     (case commit_moves td xs of
        Inl e \<Rightarrow> Inl e
      | Inr (ok, td') \<Rightarrow> if ok then commit_moves td' ys else Inr (False, td'))"
proof (induction xs arbitrary: td)
  case Nil
  show ?case by simp
next
  case (Cons m xs)
  obtain n f t where m: "m = (n, f, t)" by (cases m)
  show ?case
  proof (cases "relaxed_move_node td n f t")
    case (Inl e)
    with m show ?thesis by simp
  next
    case (Inr r)
    obtain ok td' where r: "r = (ok, td')" by (cases r)
    with Inr m Cons.IH [of td'] show ?thesis by simp
  qed
qed

lemma commit_moves_snoc_True:
  assumes "commit_moves td (ms @ [(n, f, t)]) = Inr (True, td1)"
  shows "\<exists>tdm. commit_moves td ms = Inr (True, tdm) \<and> relaxed_move_node tdm n f t = Inr (True, td1)"
proof (cases "commit_moves td ms")
  case (Inl e)
  with assms show ?thesis by (simp add: commit_moves_append)
next
  case (Inr r)
  obtain ok tdm where r: "r = (ok, tdm)" by (cases r)
  show ?thesis
  proof (cases ok)
    case False
    with assms Inr r show ?thesis by (simp add: commit_moves_append)
  next
    case True
    with assms Inr r have "commit_moves tdm [(n, f, t)] = Inr (True, td1)"
      by (simp add: commit_moves_append)
    then have "relaxed_move_node tdm n f t = Inr (True, td1)"
      by (auto split: sum.splits if_splits)
    with Inr r True show ?thesis by simp
  qed
qed

lemma relaxed_move_node_length:
  assumes "relaxed_move_node td n f t = Inr (ok, td1)"
  shows "length (partition_index (graph td1)) = length (partition_index (graph td))"
  using assms
  by (auto simp: relaxed_move_node_def Let_def setPartitionIndex_def split: if_splits)

lemma commit_moves_length:
  "commit_moves td ms = Inr (ok, td1) \<Longrightarrow>
   length (partition_index (graph td1)) = length (partition_index (graph td))"
proof (induction ms arbitrary: td)
  case Nil
  then show ?case by simp
next
  case (Cons m ms)
  obtain n f t where m: "m = (n, f, t)" by (cases m)
  from Cons.prems m obtain ok' td' where
    r: "relaxed_move_node td n f t = Inr (ok', td')"
    by (auto split: sum.splits)
  show ?case
  proof (cases ok')
    case True
    with Cons.prems m r have "commit_moves td' ms = Inr (ok, td1)" by simp
    from Cons.IH [OF this] relaxed_move_node_length [OF r] show ?thesis by simp
  next
    case False
    with Cons.prems m r have "td1 = td'" by simp
    with relaxed_move_node_length [OF r] show ?thesis by simp
  qed
qed

text \<open>One step back from a state that agrees with the state after a committed move.\<close>

lemma back_after_move:
  assumes mv: "relaxed_move_node tdm n f t = Inr (True, td1)"
    and sh: "same_shared td1 td1'"
    and n: "n < length (partition_index (graph tdm))"
  shows "\<exists>x. relaxed_move_node_back td1' n f t = Inr x \<and> same_shared tdm x"
proof -
  from relaxed_round_trip [OF mv n] obtain y where
    y: "relaxed_move_node_back td1 n f t = Inr y" "same_shared y tdm" by blast
  from relaxed_move_node_back_same_shared [OF sh, of n f t] y(1) obtain x where
    x: "relaxed_move_node_back td1' n f t = Inr x" "same_shared y x" by blast
  from y(2) x(2) have "same_shared tdm x"
    using same_shared_sym same_shared_trans by blast
  with x(1) show ?thesis by blast
qed

lemma roll_back_after_commit:
  assumes "commit_moves td ms = Inr (True, td1)"
    and "same_shared td1 td1'"
    and "\<forall>m \<in> set ms. fst m < length (partition_index (graph td))"
  shows "\<exists>td2. roll_back_moves td1' (ts @ map fst ms) (fs @ map (\<lambda>m. fst (snd m)) ms)
                  (tos @ map (\<lambda>m. snd (snd m)) ms) (b + int (length ms)) b
                = Inr (td2, ts, fs, tos)
              \<and> same_shared td2 td"
  using assms
proof (induction ms arbitrary: td1 td1' rule: rev_induct)
  case Nil
  then have "same_shared td1' td" by (simp add: same_shared_sym)
  moreover have "roll_back_moves td1' ts fs tos b b = Inr (td1', ts, fs, tos)"
    by (subst roll_back_moves.simps) simp
  ultimately show ?case by simp
next
  case (snoc m ms)
  obtain n f t where m: "m = (n, f, t)" by (cases m)
  from snoc.prems(1) m obtain tdm where
    c: "commit_moves td ms = Inr (True, tdm)" and
    mv: "relaxed_move_node tdm n f t = Inr (True, td1)"
    using commit_moves_snoc_True by blast
  have n: "n < length (partition_index (graph tdm))"
    using snoc.prems(3) m commit_moves_length [OF c] by simp
  from back_after_move [OF mv snoc.prems(2) n] obtain x where
    x: "relaxed_move_node_back td1' n f t = Inr x" "same_shared tdm x" by blast
  have rest: "\<forall>m \<in> set ms. fst m < length (partition_index (graph td))"
    using snoc.prems(3) by simp
  from snoc.IH [OF c x(2) rest] obtain td2 where
    r: "roll_back_moves x (ts @ map fst ms) (fs @ map (\<lambda>m. fst (snd m)) ms)
          (tos @ map (\<lambda>m. snd (snd m)) ms) (b + int (length ms)) b = Inr (td2, ts, fs, tos)"
      "same_shared td2 td" by blast
  have "roll_back_moves td1' (ts @ map fst (ms @ [m])) (fs @ map (\<lambda>m. fst (snd m)) (ms @ [m]))
          (tos @ map (\<lambda>m. snd (snd m)) (ms @ [m])) (b + int (length (ms @ [m]))) b
        = roll_back_moves x (ts @ map fst ms) (fs @ map (\<lambda>m. fst (snd m)) ms)
          (tos @ map (\<lambda>m. snd (snd m)) ms) (b + int (length ms)) b"
    by (subst roll_back_moves.simps) (simp add: m x(1) butlast_append)
  with r show ?case by simp
qed

lemma unroll_after_commit:
  assumes "commit_moves td (map (\<lambda>i. (ts ! i, fs ! i, tos ! i)) idx) = Inr (True, td1)"
    and "same_shared td1 td1'"
    and "logs td1' = (ts, fs, tos, gs)"
    and "\<forall>i \<in> set idx. i < length ts \<and> i < length fs \<and> i < length tos \<and> i < length gs
           \<and> ts ! i < length (partition_index (graph td))"
  shows "\<exists>td2 mn'. foldM_err unroll_relaxed_step (rev idx) (td1', mn, ci)
                     = Inr (td2, mn', ci - sum_list (map (\<lambda>i. gs ! i) idx))
                   \<and> same_shared td2 td \<and> logs td2 = (ts, fs, tos, gs)
                   \<and> (\<forall>v. v \<notin> set (map (\<lambda>i. ts ! i) idx) \<longrightarrow> mn' v = mn v)"
  using assms
proof (induction idx arbitrary: td1 td1' mn ci rule: rev_induct)
  case Nil
  then show ?case by (simp add: same_shared_sym)
next
  case (snoc j idx)
  let ?e = "\<lambda>i. (ts ! i, fs ! i, tos ! i)"
  from snoc.prems(1) obtain tdm where
    c: "commit_moves td (map ?e idx) = Inr (True, tdm)" and
    mv: "relaxed_move_node tdm (ts ! j) (fs ! j) (tos ! j) = Inr (True, td1)"
    using commit_moves_snoc_True [of td "map ?e idx" "ts ! j" "fs ! j" "tos ! j" td1] by auto
  have j: "j < length ts \<and> j < length fs \<and> j < length tos \<and> j < length gs"
    using snoc.prems(4) by simp
  have n: "ts ! j < length (partition_index (graph tdm))"
    using snoc.prems(4) commit_moves_length [OF c] by simp
  from back_after_move [OF mv snoc.prems(2) n] obtain x where
    x: "relaxed_move_node_back td1' (ts ! j) (fs ! j) (tos ! j) = Inr x" "same_shared tdm x"
    by blast
  have lx: "logs x = (ts, fs, tos, gs)"
    using relaxed_move_node_back_Inr(7) [OF x(1)] snoc.prems(3) by simp
  have l1: "transpositions td1' = ts" "from_partitions td1' = fs" "to_partitions td1' = tos"
    "gains td1' = gs"
    using snoc.prems(3) by (simp_all add: logs_def)
  have step: "unroll_relaxed_step j (td1', mn, ci) = Inr (x, mn(ts ! j := None), ci - gs ! j)"
    using j x(1) l1 by (simp add: unroll_relaxed_step_def)
  have rest: "\<forall>i \<in> set idx. i < length ts \<and> i < length fs \<and> i < length tos \<and> i < length gs
           \<and> ts ! i < length (partition_index (graph td))"
    using snoc.prems(4) by simp
  from snoc.IH [OF c x(2) lx rest, of "mn(ts ! j := None)" "ci - gs ! j"] obtain td2 mn' where
    r: "foldM_err unroll_relaxed_step (rev idx) (x, mn(ts ! j := None), ci - gs ! j)
          = Inr (td2, mn', ci - gs ! j - sum_list (map (\<lambda>i. gs ! i) idx))"
       "same_shared td2 td" "logs td2 = (ts, fs, tos, gs)"
       "\<forall>v. v \<notin> set (map (\<lambda>i. ts ! i) idx) \<longrightarrow> mn' v = (mn(ts ! j := None)) v"
    by blast
  have "foldM_err unroll_relaxed_step (rev (idx @ [j])) (td1', mn, ci)
          = Inr (td2, mn', ci - sum_list (map (\<lambda>i. gs ! i) (idx @ [j])))"
    using step r(1) by simp
  moreover have "\<forall>v. v \<notin> set (map (\<lambda>i. ts ! i) (idx @ [j])) \<longrightarrow> mn' v = mn v"
    using r(4) by auto
  ultimately show ?case using r(2,3) by blast
qed


section \<open>The boundary index under a move\<close>

lemma neighbours_setPartitionIndex [simp]:
  "neighbours (setPartitionIndex G v c) x = neighbours G x"
  by (simp add: neighbours_def out_edges_def setPartitionIndex_def getEdgeTarget_def)

lemma number_of_nodes_setPartitionIndex [simp]:
  "number_of_nodes (setPartitionIndex G v c) = number_of_nodes G"
  by (simp add: number_of_nodes_def setPartitionIndex_def)

lemma label_setPartitionIndex:
  "v < length (partition_index G) \<Longrightarrow>
   getPartitionIndex (setPartitionIndex G v c) x = (if x = v then c else getPartitionIndex G x)"
  by (simp add: getPartitionIndex_def setPartitionIndex_def nth_list_update)

lemma in_build:
  "t \<in> build G \<longleftrightarrow>
     (\<exists>x u. x < number_of_nodes G \<and> u \<in> set (neighbours G x)
        \<and> getPartitionIndex G u \<noteq> getPartitionIndex G x
        \<and> t = (getPartitionIndex G x, getPartitionIndex G u, x))"
  by (auto simp: build_def boundary_entries_def)

lemma in_entries:
  "t \<in> set (concat (map (boundary_entries G) xs)) \<longleftrightarrow>
     (\<exists>x u. x \<in> set xs \<and> u \<in> set (neighbours G x)
        \<and> getPartitionIndex G u \<noteq> getPartitionIndex G x
        \<and> t = (getPartitionIndex G x, getPartitionIndex G u, x))"
  by (auto simp: boundary_entries_def)

lemma first_edge_le:
  assumes "graph_ok G" and "x < number_of_nodes G"
  shows "first_edge G ! (x + 1) \<le> number_of_edges G"
proof -
  from assms have len: "length (first_edge G) = number_of_nodes G + 1"
    and srt: "sorted (first_edge G)"
    and lst: "last (first_edge G) = number_of_edges G"
    by (simp_all add: graph_ok_def)
  from len have ne: "first_edge G \<noteq> []" by auto
  have "first_edge G ! (x + 1) \<le> first_edge G ! (length (first_edge G) - 1)"
    using srt len assms(2) by (intro sorted_nth_mono) simp_all
  also have "\<dots> = last (first_edge G)"
    using ne by (simp add: last_conv_nth)
  finally show ?thesis using lst by simp
qed

lemma neighbours_in_range:
  assumes "graph_ok G" and "x < number_of_nodes G" and "u \<in> set (neighbours G x)"
  shows "u < number_of_nodes G"
proof -
  from assms(3) obtain e where
    e: "first_edge G ! x \<le> e" "e < first_edge G ! (x + 1)" and u: "u = edge_target G ! e"
    by (auto simp: neighbours_def out_edges_def getEdgeTarget_def)
  from e(2) first_edge_le [OF assms(1,2)] have "e < length (edge_target G)"
    by (simp add: number_of_edges_def)
  moreover from assms(1) have "list_all (\<lambda>t. t < number_of_nodes G) (edge_target G)"
    by (simp add: graph_ok_def)
  ultimately show ?thesis
    using u by (simp add: list_all_length)
qed

lemma symmetric_adjacencyD:
  assumes "symmetric_adjacency G" and "x < number_of_nodes G" and "u \<in> set (neighbours G x)"
  shows "x \<in> set (neighbours G u)"
  using assms by (auto simp: symmetric_adjacency_def list_all_iff)

text \<open>
  If the index agrees with the labels, and the label of \<open>v\<close> is changed between the two blocks
  of the pair, then the update makes the index agree with the new labels.
\<close>

lemma post_moved_build:
  assumes ok: "graph_ok G" and sym: "symmetric_adjacency G" and v: "v < number_of_nodes G"
    and B: "bnd_index b = build G"
    and old: "getPartitionIndex G v = lhs pr \<or> getPartitionIndex G v = rhs pr"
    and new: "c = lhs pr \<or> c = rhs pr"
  shows "bnd_index (postMovedBoundaryNodeUpdates (setPartitionIndex G v c) v pr b)
           = build (setPartitionIndex G v c)"
proof -
  let ?G = "setPartitionIndex G v c"
  let ?L = "getPartitionIndex G"
  let ?L' = "getPartitionIndex ?G"
  let ?touched = "v # neighbours G v"
  from ok v have vl: "v < length (partition_index G)" by (simp add: graph_ok_def)
  have L': "?L' x = (if x = v then c else ?L x)" for x
    using label_setPartitionIndex [OF vl] by simp
  have away: "x \<noteq> v \<and> u \<noteq> v"
    if "x < number_of_nodes G" "u \<in> set (neighbours G x)" "x \<notin> set ?touched" for x u
  proof -
    from that(3) have "x \<noteq> v" "x \<notin> set (neighbours G v)" by simp_all
    moreover have "u \<noteq> v"
    proof
      assume "u = v"
      with that(1,2) symmetric_adjacencyD [OF sym] have "v \<in> set (neighbours G x)" by simp
      then have "x \<in> set (neighbours G v)"
        using symmetric_adjacencyD [OF sym that(1)] by simp
      with \<open>x \<notin> set (neighbours G v)\<close> show False by simp
    qed
    ultimately show ?thesis by simp
  qed
  have touched_range: "x < number_of_nodes G" if "x \<in> set ?touched" for x
    using that v neighbours_in_range [OF ok v] by auto
  have mem: "t \<in> bnd_index (postMovedBoundaryNodeUpdates ?G v pr b) \<longleftrightarrow>
               (t \<in> build G \<and> \<not> affected pr ?touched t)
               \<or> (t \<in> set (concat (map (boundary_entries ?G) ?touched)) \<and> affected pr ?touched t)"
    for t
    by (simp add: postMovedBoundaryNodeUpdates_def Let_def B)
  show ?thesis
  proof (rule set_eqI)
    fix t
    show "t \<in> bnd_index (postMovedBoundaryNodeUpdates ?G v pr b) \<longleftrightarrow> t \<in> build ?G"
    proof
      assume "t \<in> bnd_index (postMovedBoundaryNodeUpdates ?G v pr b)"
      then consider
        (kept) "t \<in> build G" "\<not> affected pr ?touched t"
        | (fresh) "t \<in> set (concat (map (boundary_entries ?G) ?touched))"
        using mem by blast
      then show "t \<in> build ?G"
      proof cases
        case kept
        from kept(1) obtain x u where
          xu: "x < number_of_nodes G" "u \<in> set (neighbours G x)" "?L u \<noteq> ?L x"
              "t = (?L x, ?L u, x)"
          using in_build by blast
        have "x \<noteq> v \<and> u \<noteq> v"
        proof (cases "x \<in> set ?touched")
          case False
          with away xu(1,2) show ?thesis by blast
        next
          case True
          with kept(2) xu(4) have
            "?L x \<noteq> lhs pr \<and> ?L x \<noteq> rhs pr \<and> ?L u \<noteq> lhs pr \<and> ?L u \<noteq> rhs pr"
            by (auto simp: affected_def)
          with old show ?thesis by auto
        qed
        with xu L' have "?L' u \<noteq> ?L' x" "t = (?L' x, ?L' u, x)" by simp_all
        with xu(1,2) show ?thesis
          using in_build [of t ?G] by auto
      next
        case fresh
        then obtain x u where
          xu: "x \<in> set ?touched" "u \<in> set (neighbours G x)" "?L' u \<noteq> ?L' x"
              "t = (?L' x, ?L' u, x)"
          using in_entries [of t ?G ?touched] by auto
        from touched_range [OF xu(1)] xu(2,3,4) show ?thesis
          using in_build [of t ?G] by auto
      qed
    next
      assume "t \<in> build ?G"
      then obtain x u where
        xu: "x < number_of_nodes G" "u \<in> set (neighbours G x)" "?L' u \<noteq> ?L' x"
            "t = (?L' x, ?L' u, x)"
        using in_build [of t ?G] by auto
      show "t \<in> bnd_index (postMovedBoundaryNodeUpdates ?G v pr b)"
      proof (cases "affected pr ?touched t")
        case True
        then have "x \<in> set ?touched" using xu(4) by (simp add: affected_def)
        with xu(2,3,4) have "t \<in> set (concat (map (boundary_entries ?G) ?touched))"
          using in_entries [of t ?G ?touched] by auto
        with True mem show ?thesis by blast
      next
        case False
        have "x \<noteq> v \<and> u \<noteq> v"
        proof (cases "x \<in> set ?touched")
          case False
          with away xu(1,2) show ?thesis by blast
        next
          case True
          with \<open>\<not> affected pr ?touched t\<close> xu(4) have
            "?L' x \<noteq> lhs pr \<and> ?L' x \<noteq> rhs pr \<and> ?L' u \<noteq> lhs pr \<and> ?L' u \<noteq> rhs pr"
            by (auto simp: affected_def)
          with new L' show ?thesis by auto
        qed
        with xu L' have "?L u \<noteq> ?L x" "t = (?L x, ?L u, x)" by simp_all
        with xu(1,2) have "t \<in> build G" using in_build [of t G] by auto
        with False mem show ?thesis by blast
      qed
    qed
  qed
qed

text \<open>The same for the edge cuts: a pair that does not involve a block of the moved pair keeps
  its cut, and the other pairs are recomputed.\<close>

lemma block_edge_cut_setPartitionIndex:
  assumes ok: "graph_ok G" and v: "v < number_of_nodes G"
    and old: "getPartitionIndex G v = lhs pr \<or> getPartitionIndex G v = rhs pr"
    and new: "c = lhs pr \<or> c = rhs pr"
    and away: "\<not> affected_pair pr (a, b)"
  shows "block_edge_cut (setPartitionIndex G v c) a b = block_edge_cut G a b"
proof -
  let ?G = "setPartitionIndex G v c"
  from ok v have vl: "v < length (partition_index G)" by (simp add: graph_ok_def)
  have L': "getPartitionIndex ?G x = (if x = v then c else getPartitionIndex G x)" for x
    using label_setPartitionIndex [OF vl] by simp
  from away have ab: "a \<noteq> lhs pr" "a \<noteq> rhs pr" "b \<noteq> lhs pr" "b \<noteq> rhs pr"
    by (simp_all add: affected_pair_def)
  have ea: "(getPartitionIndex ?G x = a) = (getPartitionIndex G x = a)" for x
    using L' [of x] old new ab by auto
  have eb: "(getPartitionIndex ?G x = b) = (getPartitionIndex G x = b)" for x
    using L' [of x] old new ab by auto
  have oe: "out_edges ?G x = out_edges G x" for x
    by (simp add: out_edges_def setPartitionIndex_def)
  have et: "getEdgeTarget ?G e = getEdgeTarget G e" for e
    by (simp add: getEdgeTarget_def setPartitionIndex_def)
  have ew: "getEdgeWeight ?G e = getEdgeWeight G e" for e
    by (simp add: getEdgeWeight_def setPartitionIndex_def)
  show ?thesis
    unfolding block_edge_cut_def ea eb oe et ew by simp
qed

lemma post_moved_edge_cut:
  assumes ok: "graph_ok G" and v: "v < number_of_nodes G"
    and B: "bnd_edge_cut b = build_edge_cut G"
    and old: "getPartitionIndex G v = lhs pr \<or> getPartitionIndex G v = rhs pr"
    and new: "c = lhs pr \<or> c = rhs pr"
  shows "bnd_edge_cut (postMovedBoundaryNodeUpdates (setPartitionIndex G v c) v pr b)
           = build_edge_cut (setPartitionIndex G v c)"
proof (rule ext)
  fix p
  let ?G = "setPartitionIndex G v c"
  show "bnd_edge_cut (postMovedBoundaryNodeUpdates ?G v pr b) p = build_edge_cut ?G p"
  proof (cases "affected_pair pr p")
    case True
    then show ?thesis by (simp add: postMovedBoundaryNodeUpdates_def Let_def)
  next
    case False
    then have "\<not> affected_pair pr (fst p, snd p)" by simp
    from block_edge_cut_setPartitionIndex [OF ok v old new this]
    have "build_edge_cut ?G p = build_edge_cut G p"
      by (simp add: build_edge_cut_def)
    with False B show ?thesis by (simp add: postMovedBoundaryNodeUpdates_def Let_def)
  qed
qed

lemma graph_ok_setPartitionIndex:
  "graph_ok G \<Longrightarrow> graph_ok (setPartitionIndex G v c)"
  by (simp add: graph_ok_def setPartitionIndex_def number_of_nodes_def number_of_edges_def)

lemma symmetric_adjacency_setPartitionIndex:
  "symmetric_adjacency G \<Longrightarrow> symmetric_adjacency (setPartitionIndex G v c)"
  by (simp add: symmetric_adjacency_def)

lemma relaxed_move_node_index:
  assumes "relaxed_move_node td n f t = Inr (ok, td1)"
    and "graph_ok (graph td)" and "symmetric_adjacency (graph td)"
    and "n < number_of_nodes (graph td)" and "index_consistent td"
  shows "graph_ok (graph td1) \<and> symmetric_adjacency (graph td1) \<and> index_consistent td1
         \<and> number_of_nodes (graph td1) = number_of_nodes (graph td)"
proof (cases ok)
  case False
  with assms(1) have "relaxed_move_node td n f t = Inr (False, td1)" by simp
  then have "td1 = td" by (rule relaxed_move_node_False)
  with assms show ?thesis by simp
next
  case True
  with assms(1) have mv: "relaxed_move_node td n f t = Inr (True, td1)" by simp
  note m = relaxed_move_node_True [OF mv]
  let ?pr = "\<lparr>pair_k = cfg_k (config td), lhs = f, rhs = t\<rparr>"
  have "bnd_index (postMovedBoundaryNodeUpdates (setPartitionIndex (graph td) n t) n ?pr (boundary td))
          = build (setPartitionIndex (graph td) n t)"
    by (rule post_moved_build [OF assms(2,3,4)]) (use assms(5) m(1) in \<open>simp_all add: index_consistent_def\<close>)
  moreover
  have "bnd_edge_cut (postMovedBoundaryNodeUpdates (setPartitionIndex (graph td) n t) n ?pr (boundary td))
          = build_edge_cut (setPartitionIndex (graph td) n t)"
    by (rule post_moved_edge_cut [OF assms(2,4)]) (use assms(5) m(1) in \<open>simp_all add: index_consistent_def\<close>)
  ultimately have "index_consistent td1" using m(2,5,10) by (simp add: index_consistent_def)
  with m(2) assms(2,3) show ?thesis
    by (simp add: graph_ok_setPartitionIndex symmetric_adjacency_setPartitionIndex)
qed

lemma relaxed_move_node_back_index:
  assumes "relaxed_move_node_back td n f t = Inr td1"
    and "graph_ok (graph td)" and "symmetric_adjacency (graph td)"
    and "n < number_of_nodes (graph td)" and "index_consistent td"
  shows "graph_ok (graph td1) \<and> symmetric_adjacency (graph td1) \<and> index_consistent td1
         \<and> number_of_nodes (graph td1) = number_of_nodes (graph td)"
proof -
  note m = relaxed_move_node_back_Inr [OF assms(1)]
  let ?pr = "\<lparr>pair_k = cfg_k (config td), lhs = f, rhs = t\<rparr>"
  have "bnd_index (postMovedBoundaryNodeUpdates (setPartitionIndex (graph td) n f) n ?pr (boundary td))
          = build (setPartitionIndex (graph td) n f)"
    by (rule post_moved_build [OF assms(2,3,4)]) (use assms(5) m(1) in \<open>simp_all add: index_consistent_def\<close>)
  moreover
  have "bnd_edge_cut (postMovedBoundaryNodeUpdates (setPartitionIndex (graph td) n f) n ?pr (boundary td))
          = build_edge_cut (setPartitionIndex (graph td) n f)"
    by (rule post_moved_edge_cut [OF assms(2,4)]) (use assms(5) m(1) in \<open>simp_all add: index_consistent_def\<close>)
  ultimately have "index_consistent td1" using m(2,5,8) by (simp add: index_consistent_def)
  with m(2) assms(2,3) show ?thesis
    by (simp add: graph_ok_setPartitionIndex symmetric_adjacency_setPartitionIndex)
qed


section \<open>The local aggregates of a thread in a round\<close>

lemma upd_round_trip:
  fixes c :: "32 word list"
  assumes "g = c[t := c ! t + d]" and "h = g[f := g ! f - d]"
    and "k = h[f := h ! f + d]" and "l = k[t := k ! t - d]"
  shows "l = c"
proof (rule nth_equalityI)
  show "length l = length c" using assms by simp
next
  fix i
  assume "i < length l"
  then have i: "i < length c" using assms by simp
  show "l ! i = c ! i"
    unfolding assms
    by (cases "f < length c"; cases "t < length c")
      (use i in \<open>auto simp: nth_list_update\<close>)
qed

lemma upd_round_trip':
  fixes c :: "32 word list"
  assumes "g = c[t := c ! t + d]" and "h = g[f := g ! f - d]"
    and "k = h[t := h ! t - d]" and "l = k[f := k ! f + d]"
  shows "l = c"
proof (rule nth_equalityI)
  show "length l = length c" using assms by simp
next
  fix i
  assume "i < length l"
  then have i: "i < length c" using assms by simp
  show "l ! i = c ! i"
    unfolding assms
    by (cases "f < length c"; cases "t < length c")
      (use i in \<open>auto simp: nth_list_update\<close>)
qed

lemma local_undo_apply: "local_undo nw (local_apply nw a m) m = a"
proof -
  obtain pw ps where a: "a = (pw, ps)" by (cases a)
  obtain node f t where m: "m = (node, f, t)" by (cases m)
  define w where "w = nw ! node"
  define g where "g = pw[t := pw ! t + w]"
  define h where "h = g[f := g ! f - w]"
  define k where "k = h[f := h ! f + w]"
  define l where "l = k[t := k ! t - w]"
  define g' where "g' = ps[t := ps ! t + 1]"
  define h' where "h' = g'[f := g' ! f - 1]"
  define k' where "k' = h'[t := h' ! t - 1]"
  define l' where "l' = k'[f := k' ! f + 1]"
  have 1: "l = pw" by (rule upd_round_trip [OF g_def h_def k_def l_def])
  have 2: "l' = ps" by (rule upd_round_trip' [OF g'_def h'_def k'_def l'_def])
  have "local_apply nw a m = (h, h')"
    by (simp add: a m local_apply_def Let_def w_def g_def h_def g'_def h'_def)
  moreover have "local_undo nw (h, h') m = (l, l')"
    by (simp add: m local_undo_def Let_def w_def k_def l_def k'_def l'_def)
  ultimately show ?thesis using 1 2 a by simp
qed

lemma local_move_update_neighbour_aggr:
  "local_aggregates (local_move_update_neighbour ext e td) = local_aggregates td"
  by (simp add: local_move_update_neighbour_def Let_def local_aggregates_def)

lemma local_move_node_aggr:
  assumes "local_move_node ext td node from gain = Inr (ok, to, td')"
  shows "local_aggregates td'
           = (if ok then local_apply (node_weight (graph td)) (local_aggregates td) (node, from, to)
              else local_aggregates td)"
proof -
  have "local_aggregates (fold (local_move_update_neighbour ext) xs s) = local_aggregates s"
    for xs s
    by (rule fold_preserves) (simp add: local_move_update_neighbour_aggr)
  with assms show ?thesis
    by (auto simp: local_move_node_def Let_def set_local_partition_def local_apply_def
        getNodeWeight_def split: if_splits)
      (simp_all add: local_aggregates_def)
qed

lemma local_move_back_node_aggr:
  "local_aggregates (local_move_back_node td node from to)
     = local_undo (node_weight (graph td)) (local_aggregates td) (node, from, to)"
  by (simp add: local_move_back_node_def Let_def local_aggregates_def local_undo_def
      getNodeWeight_def)

lemma log_entries_snoc:
  "s \<le> e \<Longrightarrow> log_entries td s (Suc e)
     = log_entries td s e @ [(transpositions td ! e, from_partitions td ! e, to_partitions td ! e)]"
  by (simp add: log_entries_def)

lemma log_entries_cong:
  "logs td' = logs td \<Longrightarrow> log_entries td' s e = log_entries td s e"
  by (simp add: log_entries_def logs_def)

lemma log_entries_append:
  assumes "transpositions td' = transpositions td @ xs"
    and "from_partitions td' = from_partitions td @ ys"
    and "to_partitions td' = to_partitions td @ zs"
    and "e \<le> length (transpositions td)" and "e \<le> length (from_partitions td)"
    and "e \<le> length (to_partitions td)"
  shows "log_entries td' s e = log_entries td s e"
  using assms by (simp add: log_entries_def nth_append)

text \<open>Unrolling undoes the entries above \<open>min_cut_index\<close>, last entry first.\<close>

lemma unroll_moves_loop_aggr:
  assumes "length (from_partitions td) = length (transpositions td)"
    and "length (to_partitions td) = length (transpositions td)"
    and "int pm - 1 \<le> m" and "m < int (length (transpositions td))"
    and "u \<le> length (transpositions td)" and "m + 1 \<le> int (length (transpositions td) - u)"
    and "local_aggregates td
           = foldl (local_apply (node_weight (graph td))) a0
               (log_entries td pm (length (transpositions td) - u))"
    and "length (transpositions td) < 4294967296"
  shows "\<exists>td' u'. unroll_moves_loop td m u = Inr (td', u')
           \<and> local_aggregates td'
               = foldl (local_apply (node_weight (graph td))) a0 (log_entries td pm (nat (m + 1)))"
  using assms
proof (induction td m u rule: unroll_moves_loop.induct)
  case (1 td m u)
  let ?n = "length (transpositions td)"
  from "1.prems"(3,5,6,8) have b: "0 \<le> int u + m + 1" "int u + m + 1 < 4294967296"
    by linarith+
  then have "to_uint32 (int u + m + 1) = nat (int u + m + 1)"
    by (simp add: to_uint32_def)
  then have cond: "to_uint32 (int u + m + 1) < ?n \<longleftrightarrow> int u + m + 1 < int ?n"
    using b(1) by linarith
  show ?case
  proof (cases "int u + m + 1 < int ?n")
    case False
    with "1.prems" have "nat (m + 1) = ?n - u" by linarith
    moreover from False cond have "unroll_moves_loop td m u = Inr (td, u)"
      by (subst unroll_moves_loop.simps) simp
    ultimately show ?thesis using "1.prems"(7) by simp
  next
    case True
    with cond have T: "to_uint32 (int u + m + 1) < ?n" by simp
    let ?i = "?n - 1 - u"
    let ?m = "(transpositions td ! ?i, from_partitions td ! ?i, to_partitions td ! ?i)"
    let ?td = "local_move_back_node td (transpositions td ! ?i) (from_partitions td ! ?i)
                 (to_partitions td ! ?i)"
    from True "1.prems" have u: "u < ?n" by linarith
    with "1.prems"(1,2) have rng: "u < ?n \<and> ?i < length (from_partitions td)
                               \<and> ?i < length (to_partitions td)" by simp
    have lg: "logs ?td = logs td" by (rule local_move_back_node_logs)
    then have lens: "transpositions ?td = transpositions td"
      "from_partitions ?td = from_partitions td" "to_partitions ?td = to_partitions td"
      by (simp_all add: logs_def)
    have gr: "graph ?td = graph td" by (simp add: local_move_back_node_shared)
    have pm: "pm \<le> ?i" using True "1.prems"(3) u by linarith
    have split: "log_entries td pm (?n - u) = log_entries td pm ?i @ [?m]"
      using log_entries_snoc [OF pm, of td] u by (simp add: Suc_diff_Suc)
    have ag: "local_aggregates ?td
                = foldl (local_apply (node_weight (graph td))) a0 (log_entries td pm ?i)"
      using "1.prems"(7) split
      by (simp add: local_move_back_node_aggr local_undo_apply)
    have step: "unroll_moves_loop td m u = unroll_moves_loop ?td m (u + 1)"
      by (subst unroll_moves_loop.simps) (use T rng in \<open>simp add: Let_def\<close>)
    have i': "?n - (u + 1) = ?i" by simp
    have "\<exists>td' u'. unroll_moves_loop ?td m (u + 1) = Inr (td', u')
           \<and> local_aggregates td'
               = foldl (local_apply (node_weight (graph ?td))) a0 (log_entries ?td pm (nat (m + 1)))"
    proof (rule "1.IH" [OF T rng refl refl refl refl])
      show "length (from_partitions ?td) = length (transpositions ?td)"
        using lens "1.prems"(1) by simp
      show "length (to_partitions ?td) = length (transpositions ?td)"
        using lens "1.prems"(2) by simp
      show "int pm - 1 \<le> m" by (rule "1.prems"(3))
      show "m < int (length (transpositions ?td))" using lens "1.prems"(4) by simp
      show "length (transpositions ?td) < 4294967296" using lens "1.prems"(8) by simp
      show "u + 1 \<le> length (transpositions ?td)" using lens u by simp
      show "m + 1 \<le> int (length (transpositions ?td) - (u + 1))"
        using lens True u by simp
      show "local_aggregates ?td
              = foldl (local_apply (node_weight (graph ?td))) a0
                  (log_entries ?td pm (length (transpositions ?td) - (u + 1)))"
        using ag gr lens i' log_entries_cong [OF lg] by simp
    qed
    with step gr log_entries_cong [OF lg] show ?thesis by simp
  qed
qed


subsection \<open>The invariant of the loop of a round\<close>

lemma init_queue_with_boundary_aggr:
  "local_aggregates (init_queue_with_boundary ext td) = local_aggregates td"
proof -
  have "local_aggregates (fold (init_queue_node ext) xs s) = local_aggregates s" for xs s
    by (rule fold_preserves) (simp add: init_queue_node_def Let_def local_aggregates_def)
  then show ?thesis
    by (simp add: init_queue_with_boundary_def Let_def) (simp add: local_aggregates_def)
qed

lemma round_accept_result:
  assumes "round_accept ext pm st node from to gain td2 = Inr r"
  shows "\<exists>st'. r = Continue st'
           \<and> transpositions (rs_td st') = transpositions td2 @ [node]
           \<and> from_partitions (rs_td st') = from_partitions td2 @ [from]
           \<and> to_partitions (rs_td st') = to_partitions td2 @ [to]
           \<and> local_aggregates (rs_td st') = local_aggregates td2
           \<and> graph (rs_td st') = graph td2
           \<and> rs_min_cut_index st' < int (length (transpositions td2)) + 1
           \<and> (rs_min_cut_index st' = rs_min_cut_index st
                \<or> rs_min_cut_index st' = pm + rs_number_of_swaps st)
           \<and> rs_number_of_swaps st' = rs_number_of_swaps st"
  using assms
  by (auto simp: round_accept_def Let_def local_aggregates_def split: if_splits)

lemma round_step_inv:
  assumes inv: "round_inv a0 pm st" and sw: "0 \<le> rs_number_of_swaps st"
    and step: "round_step ext (int pm) st = Inr r"
    and r: "r = Break st' \<or> r = Continue st'"
  shows "round_inv a0 pm st' \<and> - 1 \<le> rs_number_of_swaps st'"
proof -
  let ?td = "rs_td st"
  let ?n = "length (transpositions ?td)"
  from inv have
    lf: "length (from_partitions ?td) = ?n" and lt: "length (to_partitions ?td) = ?n" and
    pm: "pm \<le> ?n" and
    ag: "local_aggregates ?td
           = foldl (local_apply (node_weight (graph ?td))) a0 (log_entries ?td pm ?n)" and
    lo: "int pm - 1 \<le> rs_min_cut_index st" and hi: "rs_min_cut_index st < int ?n"
    by (simp_all add: round_inv_def)
  show ?thesis
  proof (cases "queue ?td = [] \<or> num_threads_finished ?td > 0
                \<or> fst (search_should_stop ext (stopping_rule ?td)
                     (if rs_min_cut_index st - int pm \<ge> 0
                      then to_uint32 (rs_min_cut_index st - int pm) else 0)
                     (to_uint32 (rs_number_of_swaps st)) (step_limit ?td))")
    case True
    with step r have
      "logs (rs_td st') = logs ?td \<and> local_aggregates (rs_td st') = local_aggregates ?td
       \<and> graph (rs_td st') = graph ?td \<and> rs_min_cut_index st' = rs_min_cut_index st
       \<and> rs_number_of_swaps st' = rs_number_of_swaps st"
      by (auto simp: round_step_def Let_def logs_def local_aggregates_def split: if_splits)
    with inv sw show ?thesis
      by (simp add: round_inv_def logs_def log_entries_def)
  next
    case False
    let ?r = "search_should_stop ext (stopping_rule ?td)
                (if rs_min_cut_index st - int pm \<ge> 0
                 then to_uint32 (rs_min_cut_index st - int pm) else 0)
                (to_uint32 (rs_number_of_swaps st)) (step_limit ?td)"
    let ?tdz = "?td\<lparr>stopping_rule := snd ?r\<rparr>"
    let ?gain = "pq_maxValue (queue ?tdz)"
    let ?node = "fst (pq_deleteMax (queue ?tdz))"
    let ?td1 = "?tdz\<lparr>queue := snd (pq_deleteMax (queue ?tdz))\<rparr>"
    let ?from = "get_local_partition ?td1 ?node"
    from step False obtain ok to td2 where
      mv0: "local_move_node ext ?td1 ?node ?from ?gain = Inr (ok, to, td2)" and
      rest0: "(if ok then round_accept ext (int pm) st ?node ?from to ?gain td2
              else Inr (Continue (st\<lparr>rs_td := td2, rs_number_of_swaps := rs_number_of_swaps st - 1\<rparr>)))
             = Inr r"
      by (auto simp: round_step_def Let_def bind_err_Inr split: if_splits)
    define node where "node = ?node"
    define frm where "frm = ?from"
    have mv: "local_move_node ext ?td1 node frm ?gain = Inr (ok, to, td2)"
      unfolding node_def frm_def by (rule mv0)
    have rest: "(if ok then round_accept ext (int pm) st node frm to ?gain td2
              else Inr (Continue (st\<lparr>rs_td := td2, rs_number_of_swaps := rs_number_of_swaps st - 1\<rparr>)))
             = Inr r"
      unfolding node_def frm_def by (rule rest0)
    from local_move_node_logs [OF mv] have l2: "logs td2 = logs (rs_td st)"
      by (simp add: logs_def)
    from local_move_node_shared [OF mv] have g2: "graph td2 = graph (rs_td st)" by simp
    from local_move_node_aggr [OF mv] have a2:
      "local_aggregates td2
         = (if ok then local_apply (node_weight (graph (rs_td st))) (local_aggregates (rs_td st))
                         (node, frm, to)
            else local_aggregates (rs_td st))"
      by (simp add: local_aggregates_def)
    show ?thesis
    proof (cases ok)
      case False
      with rest r have s': "st' = st\<lparr>rs_td := td2, rs_number_of_swaps := rs_number_of_swaps st - 1\<rparr>"
        by auto
      with inv sw l2 g2 a2 False show ?thesis
        by (simp add: round_inv_def logs_def log_entries_def)
    next
      case True
      with rest have "round_accept ext (int pm) st node frm to ?gain td2 = Inr r" by simp
      from round_accept_result [OF this] r have
        t': "transpositions (rs_td st') = transpositions td2 @ [node]" and
        f': "from_partitions (rs_td st') = from_partitions td2 @ [frm]" and
        o': "to_partitions (rs_td st') = to_partitions td2 @ [to]" and
        a': "local_aggregates (rs_td st') = local_aggregates td2" and
        g': "graph (rs_td st') = graph td2" and
        hi': "rs_min_cut_index st' < int (length (transpositions td2)) + 1" and
        mc: "rs_min_cut_index st' = rs_min_cut_index st
               \<or> rs_min_cut_index st' = int pm + rs_number_of_swaps st" and
        sw': "rs_number_of_swaps st' = rs_number_of_swaps st"
        by auto
      from l2 have l2': "transpositions td2 = transpositions ?td"
        "from_partitions td2 = from_partitions ?td" "to_partitions td2 = to_partitions ?td"
        by (simp_all add: logs_def)
      have e1: "log_entries (rs_td st') pm ?n = log_entries ?td pm ?n"
        by (rule log_entries_append [where xs = "[node]" and ys = "[frm]" and zs = "[to]"])
          (use t' f' o' l2' lf lt in simp_all)
      have e2: "log_entries (rs_td st') pm (Suc ?n)
                  = log_entries ?td pm ?n @ [(node, frm, to)]"
        using log_entries_snoc [OF pm, of "rs_td st'"] e1 t' f' o' l2' lf lt
        by (simp add: nth_append)
      have n': "length (transpositions (rs_td st')) = Suc ?n" using t' l2' by simp
      have gg: "graph (rs_td st') = graph ?td" using g' g2 by simp
      have "local_aggregates (rs_td st')
              = local_apply (node_weight (graph ?td))
                  (foldl (local_apply (node_weight (graph ?td))) a0 (log_entries ?td pm ?n))
                  (node, frm, to)"
        using a' a2 True ag by simp
      also have "\<dots> = foldl (local_apply (node_weight (graph ?td))) a0
                          (log_entries ?td pm ?n @ [(node, frm, to)])"
        by simp
      finally have "local_aggregates (rs_td st')
              = foldl (local_apply (node_weight (graph (rs_td st')))) a0
                  (log_entries (rs_td st') pm (length (transpositions (rs_td st'))))"
        unfolding n' gg e2 .
      moreover have "int pm - 1 \<le> rs_min_cut_index st'"
        using mc lo sw by auto
      ultimately have "round_inv a0 pm st'"
        using t' f' o' l2' lf lt pm hi' by (simp add: round_inv_def)
      with sw sw' show ?thesis by simp
    qed
  qed
qed

lemma round_inv_swaps:
  "round_inv a0 pm (st\<lparr>rs_number_of_swaps := x\<rparr>) = round_inv a0 pm st"
  by (simp add: round_inv_def)

lemma round_loop_inv:
  "round_loop ext mx p st i = Inr (st', i') \<Longrightarrow> p = int pm \<Longrightarrow>
   round_inv a0 pm st \<Longrightarrow> 0 \<le> rs_number_of_swaps st \<Longrightarrow> round_inv a0 pm st'"
proof (induction ext mx p st i rule: round_loop.induct)
  case (1 ext mx p st i)
  show ?case
  proof (cases "i < mx")
    case False
    with "1.prems" have "st' = st"
      by (subst (asm) round_loop.simps) simp
    with "1.prems" show ?thesis by simp
  next
    case True
    show ?thesis
    proof (cases "round_step ext p st")
      case (Inl e)
      with "1.prems" True show ?thesis
        by (subst (asm) round_loop.simps) simp
    next
      case (Inr r)
      then have step: "round_step ext (int pm) st = Inr r" using "1.prems"(2) by simp
      show ?thesis
      proof (cases r)
        case (Break s)
        with "1.prems" True Inr have "st' = s"
          by (subst (asm) round_loop.simps) simp
        with round_step_inv [OF "1.prems"(3,4) step, of s] Break show ?thesis by simp
      next
        case (Continue s)
        let ?s = "s\<lparr>rs_number_of_swaps := rs_number_of_swaps s + 1\<rparr>"
        from "1.prems" True Inr Continue have run: "round_loop ext mx p ?s (i + 1) = Inr (st', i')"
          by (subst (asm) round_loop.simps) simp
        from round_step_inv [OF "1.prems"(3,4) step, of s] Continue have
          s: "round_inv a0 pm s" "- 1 \<le> rs_number_of_swaps s" by simp_all
        show ?thesis
        proof (rule "1.IH" [OF True Inr Continue run "1.prems"(2)])
          show "round_inv a0 pm ?s" using s(1) by (simp add: round_inv_swaps)
          show "0 \<le> rs_number_of_swaps ?s" using s(2) by simp
        qed
      qed
    qed
  qed
qed

lemma single_round_aggr:
  assumes run: "single_kway_refinement_round_internal ext td = Inr ((g, mci, mv), td')"
    and lf: "length (from_partitions td) = length (transpositions td)"
    and lt: "length (to_partitions td) = length (transpositions td)"
    and ll: "length (transpositions td') \<le> 4294967296"
  shows "local_aggregates td'
           = foldl (local_apply (node_weight (graph td))) (local_aggregates td)
               (log_entries td' (length (transpositions td)) (nat (mci + 1)))"
proof -
  let ?td = "init_queue_with_boundary ext (td\<lparr>queue := []\<rparr>)"
  let ?pm = "length (transpositions td)"
  have il: "logs ?td = logs td"
    using init_queue_with_boundary_logs [of ext "td\<lparr>queue := []\<rparr>"] by (simp add: logs_def)
  have ia: "local_aggregates ?td = local_aggregates td"
    using init_queue_with_boundary_aggr [of ext "td\<lparr>queue := []\<rparr>"]
    by (simp add: local_aggregates_def)
  have ig: "graph ?td = graph td"
    using init_queue_with_boundary_shared [of ext "td\<lparr>queue := []\<rparr>"] by simp
  show ?thesis
  proof (cases "queue ?td = []")
    case True
    with run have "td' = push_sentinels ?td" "mci = - 1"
      by (simp_all add: single_kway_refinement_round_internal_def Let_def)
    with ia show ?thesis
      by (simp add: log_entries_def push_sentinels_def local_aggregates_def)
  next
    case False
    let ?mx = "if max_number_of_moves (config ?td) \<noteq> - 1
               then to_uint32 (max_number_of_moves (config ?td))
               else number_of_nodes (graph ?td)"
    let ?td1 = "?td\<lparr>config := (config ?td)\<lparr>kway_adaptive_limits_alpha := 10\<rparr>\<rparr>"
    let ?td2 = "?td1\<lparr>stopping_rule := new_stop_rule ext (config ?td1)\<rparr>"
    let ?st = "\<lparr>rs_td = ?td2, rs_cut = int_max div 2, rs_best_cut = int_max div 2,
                 rs_min_cut_index = int (length (transpositions ?td2)) - 1, rs_number_of_swaps = 0\<rparr>"
    from run False obtain st' td4 unrolled where
      loop: "round_loop ext ?mx (int (length (transpositions ?td2))) ?st 0 = Inr (st', mv)" and
      unroll: "unroll_moves
                 (if mv = ?mx
                  then (rs_td st')\<lparr>stop_max_number_of_swaps := stop_max_number_of_swaps (rs_td st') + 1\<rparr>
                  else rs_td st') (rs_min_cut_index st') = Inr (td4, unrolled)" and
      fin: "td' = push_sentinels (td4\<lparr>accepted_movements := accepted_movements td4 - int unrolled,
                                       nodes_partitions := []\<rparr>)" and
      mci: "mci = rs_min_cut_index st'"
      by (auto simp: single_kway_refinement_round_internal_def Let_def bind_err_Inr
          simp del: One_nat_def split: if_splits)
    have l2: "transpositions ?td2 = transpositions td" "from_partitions ?td2 = from_partitions td"
      "to_partitions ?td2 = to_partitions td"
      using il by (simp_all add: logs_def)
    have inv0: "round_inv (local_aggregates td) ?pm ?st"
      using l2 lf lt ia ig
      by (simp add: round_inv_def log_entries_def local_aggregates_def)
    have pm: "int (length (transpositions ?td2)) = int ?pm" using l2 by simp
    have inv: "round_inv (local_aggregates td) ?pm st'"
      by (rule round_loop_inv [OF loop pm inv0]) simp
    let ?td3 = "if mv = ?mx
                then (rs_td st')\<lparr>stop_max_number_of_swaps := stop_max_number_of_swaps (rs_td st') + 1\<rparr>
                else rs_td st'"
    have l3: "logs ?td3 = logs (rs_td st')" by (simp add: logs_def)
    have g3: "graph ?td3 = graph (rs_td st')" by simp
    have a3: "local_aggregates ?td3 = local_aggregates (rs_td st')"
      by (simp add: local_aggregates_def)
    from round_loop_shared [OF loop] ig have gs: "graph (rs_td st') = graph td" by simp
    from inv l3 g3 a3 have pre:
      "length (from_partitions ?td3) = length (transpositions ?td3)"
      "length (to_partitions ?td3) = length (transpositions ?td3)"
      "int ?pm - 1 \<le> rs_min_cut_index st'"
      "rs_min_cut_index st' < int (length (transpositions ?td3))"
      "local_aggregates ?td3
         = foldl (local_apply (node_weight (graph ?td3))) (local_aggregates td)
             (log_entries ?td3 ?pm (length (transpositions ?td3) - 0))"
      by (simp_all add: round_inv_def logs_def log_entries_def split: if_splits)
    from unroll_moves_loop_logs [OF unroll [unfolded unroll_moves_def]]
    have l4: "logs td4 = logs ?td3" .
    have "length (transpositions td') = length (transpositions td4) + 1"
      using fin by (simp add: push_sentinels_def)
    with ll l4 have l32: "length (transpositions ?td3) < 4294967296"
      by (simp add: logs_def)
    have "\<exists>td'' u'. unroll_moves_loop ?td3 (rs_min_cut_index st') 0 = Inr (td'', u')
           \<and> local_aggregates td''
               = foldl (local_apply (node_weight (graph ?td3))) (local_aggregates td)
                   (log_entries ?td3 ?pm (nat (rs_min_cut_index st' + 1)))"
      by (rule unroll_moves_loop_aggr [OF pre(1,2,3,4) _ _ pre(5) l32]) (use pre(4) in simp_all)
    with unroll have a4:
      "local_aggregates td4
         = foldl (local_apply (node_weight (graph ?td3))) (local_aggregates td)
             (log_entries ?td3 ?pm (nat (rs_min_cut_index st' + 1)))"
      by (simp add: unroll_moves_def)
    have e: "log_entries td' ?pm (nat (rs_min_cut_index st' + 1))
               = log_entries ?td3 ?pm (nat (rs_min_cut_index st' + 1))"
    proof -
      have "log_entries td' ?pm (nat (rs_min_cut_index st' + 1))
              = log_entries td4 ?pm (nat (rs_min_cut_index st' + 1))"
        by (rule log_entries_append [where xs = "[sentinel]" and ys = "[sentinel]"
              and zs = "[sentinel]"])
          (use fin l4 pre(1,2,4) in \<open>simp_all add: push_sentinels_def logs_def\<close>)
      with log_entries_cong [OF l4] show ?thesis by simp
    qed
    have "local_aggregates td' = local_aggregates td4"
      using fin by (simp add: push_sentinels_def local_aggregates_def)
    with a4 e mci g3 gs show ?thesis by simp
  qed
qed


subsection \<open>The boundary index along committed moves and their unrolling\<close>

lemma commit_moves_logs:
  "commit_moves td ms = Inr (ok, td1) \<Longrightarrow> logs td1 = logs td"
proof (induction ms arbitrary: td)
  case Nil
  then show ?case by simp
next
  case (Cons m ms)
  obtain n f t where m: "m = (n, f, t)" by (cases m)
  from Cons.prems m obtain s tdm where
    mv: "relaxed_move_node td n f t = Inr (s, tdm)" and
    rest: "(if s then commit_moves tdm ms else Inr (False, tdm)) = Inr (ok, td1)"
    by (auto split: sum.splits)
  show ?case
  proof (cases s)
    case True
    with mv have "logs tdm = logs td" by (simp add: relaxed_move_node_True(7))
    moreover from True rest have "logs td1 = logs tdm" by (simp add: Cons.IH)
    ultimately show ?thesis by simp
  next
    case False
    with mv have "tdm = td" by (simp add: relaxed_move_node_False)
    with False rest show ?thesis by simp
  qed
qed

lemma commit_moves_index:
  "commit_moves td ms = Inr (ok, td1) \<Longrightarrow>
   graph_ok (graph td) \<Longrightarrow> symmetric_adjacency (graph td) \<Longrightarrow> index_consistent td \<Longrightarrow>
   \<forall>m \<in> set ms. fst m < number_of_nodes (graph td) \<Longrightarrow>
   graph_ok (graph td1) \<and> symmetric_adjacency (graph td1) \<and> index_consistent td1
     \<and> number_of_nodes (graph td1) = number_of_nodes (graph td)"
proof (induction ms arbitrary: td)
  case Nil
  then show ?case by simp
next
  case (Cons m ms)
  obtain n f t where m: "m = (n, f, t)" by (cases m)
  from Cons.prems(1) m obtain s tdm where
    mv: "relaxed_move_node td n f t = Inr (s, tdm)" and
    rest: "(if s then commit_moves tdm ms else Inr (False, tdm)) = Inr (ok, td1)"
    by (auto split: sum.splits)
  from Cons.prems(5) m have n: "n < number_of_nodes (graph td)" by simp
  note i = relaxed_move_node_index [OF mv Cons.prems(2,3) n Cons.prems(4)]
  show ?case
  proof (cases s)
    case True
    with rest have c: "commit_moves tdm ms = Inr (ok, td1)" by simp
    have "\<forall>m \<in> set ms. fst m < number_of_nodes (graph tdm)"
      using Cons.prems(5) i by simp
    from Cons.IH [OF c _ _ _ this] i show ?thesis by simp
  next
    case False
    with rest i show ?thesis by simp
  qed
qed

lemma unroll_relaxed_step_index:
  "foldM_err unroll_relaxed_step idx (td, mn, ci) = Inr (td2, mn', ci') \<Longrightarrow>
   graph_ok (graph td) \<Longrightarrow> symmetric_adjacency (graph td) \<Longrightarrow> index_consistent td \<Longrightarrow>
   \<forall>i \<in> set idx. transpositions td ! i < number_of_nodes (graph td) \<Longrightarrow>
   graph_ok (graph td2) \<and> symmetric_adjacency (graph td2) \<and> index_consistent td2"
proof (induction idx arbitrary: td mn ci)
  case Nil
  then show ?case by simp
next
  case (Cons i idx)
  from Cons.prems(1) obtain s1 where
    st: "unroll_relaxed_step i (td, mn, ci) = Inr s1" and
    rest0: "foldM_err unroll_relaxed_step idx s1 = Inr (td2, mn', ci')"
    by (auto split: sum.splits)
  from st obtain tdm where
    bk: "relaxed_move_node_back td (transpositions td ! i) (from_partitions td ! i)
           (to_partitions td ! i) = Inr tdm" and
    s1: "s1 = (tdm, mn(transpositions td ! i := None), ci - gains td ! i)"
    by (auto simp: unroll_relaxed_step_def split: if_splits sum.splits)
  from rest0 s1 have
    rest: "foldM_err unroll_relaxed_step idx
             (tdm, mn(transpositions td ! i := None), ci - gains td ! i) = Inr (td2, mn', ci')"
    by simp
  from Cons.prems(5) have n: "transpositions td ! i < number_of_nodes (graph td)" by simp
  note b = relaxed_move_node_back_index [OF bk Cons.prems(2,3) n Cons.prems(4)]
  from relaxed_move_node_back_Inr(7) [OF bk] have "transpositions tdm = transpositions td"
    by (simp add: logs_def)
  with Cons.prems(5) b have "\<forall>i \<in> set idx. transpositions tdm ! i < number_of_nodes (graph tdm)"
    by simp
  from Cons.IH [OF rest _ _ _ this] b show ?case by simp
qed

subsection \<open>The two loops of the apply-phase unroll\<close>

lemma upto_int: "[int a .. int b - 1] = map int [a ..< b]"
proof (induction b)
  case 0
  then show ?case by simp
next
  case (Suc b)
  show ?case
  proof (cases "a \<le> b")
    case True
    then have "[int a .. int (Suc b) - 1] = [int a .. int b - 1] @ [int b]"
      using upto_rec2 [of "int a" "int b"] by simp
    with Suc True show ?thesis by simp
  next
    case False
    then show ?thesis by simp
  qed
qed

lemma foldM_err_map: "foldM_err f (map g xs) s = foldM_err (\<lambda>x. f (g x)) xs s"
  by (induction xs arbitrary: s) (simp_all split: sum.splits)

lemma unroll_relaxed_moves_nat:
  "unroll_relaxed_moves td mn (int a) (int b) ci
     = foldM_err unroll_relaxed_step (rev [a ..< b]) (td, mn, ci)"
proof -
  have "foldM_err (\<lambda>index s. if index < 0 then Inl Out_of_bounds
                                else unroll_relaxed_step (nat index) s)
          (map int xs) s = foldM_err unroll_relaxed_step xs s" for xs s
    by (simp add: foldM_err_map)
  from this [of "rev [a ..< b]"] show ?thesis
    by (simp add: unroll_relaxed_moves_def upto_int rev_map)
qed

lemma unroll_vectors_after_commit:
  assumes "commit_moves td ms = Inr (True, td1)"
    and "same_shared td1 td1'"
    and "\<forall>m \<in> set ms. fst m < length (partition_index (graph td))"
    and "take (length ms) ts = map fst ms"
    and "take (length ms) fs = map (\<lambda>m. fst (snd m)) ms"
    and "length ms \<le> length gs"
  shows "\<exists>td2. foldM_err (unroll_relaxed_vectors_step ts fs gs) (rev [0 ..< length ms]) (td1', ci)
                  = Inr (td2, ci - sum_list (take (length ms) gs))
               \<and> same_shared td2 td"
  using assms
proof (induction ms arbitrary: td1 td1' ci rule: rev_induct)
  case Nil
  then show ?case by (simp add: same_shared_sym)
next
  case (snoc m ms)
  obtain n f t where m: "m = (n, f, t)" by (cases m)
  let ?k = "length ms"
  from snoc.prems(1) m obtain tdm where
    cm: "commit_moves td ms = Inr (True, tdm)" and
    mv: "relaxed_move_node tdm n f t = Inr (True, td1)"
    using commit_moves_snoc_True by blast
  from snoc.prems(4) have lt: "?k < length ts"
    by (metis length_map length_append_singleton length_take lessI min_less_iff_conj)
  from snoc.prems(5) have lf: "?k < length fs"
    by (metis length_map length_append_singleton length_take lessI min_less_iff_conj)
  from snoc.prems(6) have lg: "?k < length gs" by simp
  have "take (Suc ?k) ts ! ?k = map fst (ms @ [m]) ! ?k"
    using snoc.prems(4) by simp
  then have tk: "ts ! ?k = n" using m by (simp add: nth_append)
  have "take (Suc ?k) fs ! ?k = map (\<lambda>m. fst (snd m)) (ms @ [m]) ! ?k"
    using snoc.prems(5) by simp
  then have fk: "fs ! ?k = f" using m by (simp add: nth_append)
  have "take ?k (take (Suc ?k) ts) = take ?k (map fst (ms @ [m]))"
    using snoc.prems(4) by simp
  then have tt: "take ?k ts = map fst ms" by simp
  have "take ?k (take (Suc ?k) fs) = take ?k (map (\<lambda>m. fst (snd m)) (ms @ [m]))"
    using snoc.prems(5) by simp
  then have ff: "take ?k fs = map (\<lambda>m. fst (snd m)) ms" by simp
  from snoc.prems(3) m have n: "n < length (partition_index (graph td))" by simp
  with commit_moves_length [OF cm] have n': "n < length (partition_index (graph tdm))" by simp
  from relaxed_move_node_True(2) [OF mv] n' have "getPartitionIndex (graph td1) n = t"
    by (simp add: getPartitionIndex_def setPartitionIndex_def)
  with snoc.prems(2) have lab: "getPartitionIndex (graph td1') n = t"
    by (simp add: same_shared_def)
  from back_after_move [OF mv snoc.prems(2) n'] obtain x where
    bk: "relaxed_move_node_back td1' n f t = Inr x" and sx: "same_shared tdm x"
    by blast
  have step: "unroll_relaxed_vectors_step ts fs gs ?k (td1', ci) = Inr (x, ci - gs ! ?k)"
    using lt lf lg tk fk lab bk by (simp add: unroll_relaxed_vectors_step_def Let_def)
  have rest: "\<forall>m \<in> set ms. fst m < length (partition_index (graph td))"
    using snoc.prems(3) by simp
  from snoc.IH [OF cm sx rest tt ff, of "ci - gs ! ?k"] lg obtain td2 where
    f2: "foldM_err (unroll_relaxed_vectors_step ts fs gs) (rev [0 ..< ?k]) (x, ci - gs ! ?k)
           = Inr (td2, ci - gs ! ?k - sum_list (take ?k gs))" and
    s2: "same_shared td2 td"
    by auto
  have "sum_list (take (Suc ?k) gs) = sum_list (take ?k gs) + gs ! ?k"
    using lg by (simp add: take_Suc_conv_app_nth)
  with f2 step s2 show ?case by simp
qed

lemma unroll_relaxed_vectors_step_index:
  "foldM_err (unroll_relaxed_vectors_step ts fs gs) idx (td, ci) = Inr (td2, ci') \<Longrightarrow>
   graph_ok (graph td) \<Longrightarrow> symmetric_adjacency (graph td) \<Longrightarrow> index_consistent td \<Longrightarrow>
   \<forall>i \<in> set idx. ts ! i < number_of_nodes (graph td) \<Longrightarrow>
   graph_ok (graph td2) \<and> symmetric_adjacency (graph td2) \<and> index_consistent td2"
proof (induction idx arbitrary: td ci)
  case Nil
  then show ?case by simp
next
  case (Cons i idx)
  from Cons.prems(1) obtain s1 where
    st: "unroll_relaxed_vectors_step ts fs gs i (td, ci) = Inr s1" and
    rest0: "foldM_err (unroll_relaxed_vectors_step ts fs gs) idx s1 = Inr (td2, ci')"
    by (auto split: sum.splits)
  from st obtain tdm where
    bk: "relaxed_move_node_back td (ts ! i) (fs ! i) (getPartitionIndex (graph td) (ts ! i))
           = Inr tdm" and
    s1: "s1 = (tdm, ci - gs ! i)"
    by (auto simp: unroll_relaxed_vectors_step_def Let_def split: if_splits sum.splits)
  from rest0 s1 have
    rest: "foldM_err (unroll_relaxed_vectors_step ts fs gs) idx (tdm, ci - gs ! i) = Inr (td2, ci')"
    by simp
  from Cons.prems(5) have n: "ts ! i < number_of_nodes (graph td)" by simp
  note b = relaxed_move_node_back_index [OF bk Cons.prems(2,3) n Cons.prems(4)]
  with Cons.prems(5) have "\<forall>i \<in> set idx. ts ! i < number_of_nodes (graph tdm)"
    by simp
  from Cons.IH [OF rest _ _ _ this] b show ?case by simp
qed

subsection \<open>The shadow labels of a thread\<close>

lemma init_queue_with_boundary_shadow:
  "nodes_partitions (init_queue_with_boundary ext td) = nodes_partitions td"
proof -
  have "nodes_partitions (fold (init_queue_node ext) xs s) = nodes_partitions s" for xs s
    by (rule fold_preserves) (simp add: init_queue_node_def Let_def)
  then show ?thesis
    by (simp add: init_queue_with_boundary_def Let_def)
qed

lemma single_round_shadow:
  assumes "single_kway_refinement_round_internal ext td = Inr (res, td')"
    and "nodes_partitions td = []"
  shows "nodes_partitions td' = []"
proof -
  have "nodes_partitions (init_queue_with_boundary ext (td\<lparr>queue := []\<rparr>)) = []"
    using assms(2) by (simp add: init_queue_with_boundary_shadow)
  with assms(1) show ?thesis
    by (auto simp: single_kway_refinement_round_internal_def Let_def bind_err_Inr
        push_sentinels_def split: if_splits)
qed

lemma local_move_node_shadow:
  assumes "local_move_node ext td node from gain = Inr (True, to, td1)"
  shows "nodes_partitions td1 = (node, to) # nodes_partitions td"
proof -
  have "nodes_partitions (fold (local_move_update_neighbour ext) xs s) = nodes_partitions s"
    for xs s
    by (rule fold_preserves) (simp add: local_move_update_neighbour_def Let_def)
  with assms show ?thesis
    by (auto simp: local_move_node_def Let_def set_local_partition_def split: if_splits)
qed

lemma local_move_back_node_shadow:
  "nodes_partitions (local_move_back_node td node from to) = nodes_partitions td"
  by (simp add: local_move_back_node_def Let_def)

section \<open>Unrolling restores the state\<close>

text \<open>
  C3, as the code has it.

  The unroll of the apply phase, in both overloads of \<open>unroll_relaxed_moves\<close>: when moves have
  been committed to the shared state by \<open>relaxed_move_node\<close>, each of them accepted (the
  entries \<open>[start, end)\<close> of the log of a thread for the first overload, the local vectors of
  \<open>apply_moves\<close> for the second), then the unroll over the same moves returns, and the
  shared graph, so every block label, and the shared boundary, so the node count and the
  weight of every block and the boundary index with its edge cuts, are again what they were
  before the first of these moves; the cut improvement is reduced by the gains of the moves.
  The graph is well formed with symmetric adjacency, the boundary index agrees with the
  labels before the moves, and the moved vertices are vertices of the graph.

  The unroll of a round: whenever \<open>single_kway_refinement_round\<close> returns, the shared graph and
  the shared boundary are the ones the round was given.  The thread's own block weights and
  block sizes are the ones of the start of the round with exactly the kept moves of the
  round applied (the entries of the log from the start of the round up to \<open>min_cut_index\<close>):
  every move after \<open>min_cut_index\<close> has been taken back, and they are the ones of the start
  of the round only when no move is kept.  The shadow labels of the thread are empty after a
  round that started with empty shadow labels.

  A single local move and its way back: \<open>local_move_back_node\<close> after an accepted
  \<open>local_move_node\<close> restores the thread's block weights and block sizes, but not the shadow
  label of the vertex, which stays at the destination block.
\<close>

theorem unroll_restores_state:
  "(graph_ok (graph tc) \<and> symmetric_adjacency (graph tc) \<and> index_consistent tc
      \<and> end_index \<le> length (transpositions tc) \<and> end_index \<le> length (from_partitions tc)
      \<and> end_index \<le> length (to_partitions tc) \<and> end_index \<le> length (gains tc)
      \<and> (\<forall>i \<in> {start ..< end_index}. transpositions tc ! i < number_of_nodes (graph tc))
      \<and> commit_moves tc (log_entries tc start end_index) = Inr (True, tc1)
    \<longrightarrow> (\<exists>tc2 mn'. unroll_relaxed_moves tc1 mn (int start) (int end_index) ci
                       = Inr (tc2, mn', ci - sum_list (map (\<lambda>i. gains tc ! i) [start ..< end_index]))
                    \<and> graph tc2 = graph tc \<and> boundary tc2 = boundary tc))
   \<and> (graph_ok (graph tv) \<and> symmetric_adjacency (graph tv) \<and> index_consistent tv
      \<and> (\<forall>m \<in> set ms. fst m < number_of_nodes (graph tv))
      \<and> length gs = length ms
      \<and> commit_moves tv ms = Inr (True, tv1)
    \<longrightarrow> (\<exists>tv2. unroll_relaxed_moves_vectors tv1 (map fst ms) (map (\<lambda>m. fst (snd m)) ms) gs cv
                    = Inr (tv2, cv - sum_list gs)
                 \<and> graph tv2 = graph tv \<and> boundary tv2 = boundary tv))
   \<and> (single_kway_refinement_round ext td = Inr ((g, mci, mv), td')
      \<and> length (from_partitions td) = length (transpositions td)
      \<and> length (to_partitions td) = length (transpositions td)
      \<and> length (transpositions td') \<le> 2 ^ 32
    \<longrightarrow> graph td' = graph td \<and> boundary td' = boundary td
        \<and> local_aggregates td'
            = foldl (local_apply (node_weight (graph td))) (local_aggregates td)
                (log_entries td' (length (transpositions td)) (nat (mci + 1)))
        \<and> (nodes_partitions td = [] \<longrightarrow> nodes_partitions td' = []))
   \<and> (local_move_node ext tm node from gain = Inr (True, to, tm1)
    \<longrightarrow> local_aggregates (local_move_back_node tm1 node from to) = local_aggregates tm
        \<and> nodes_partitions (local_move_back_node tm1 node from to) = (node, to) # nodes_partitions tm
        \<and> get_local_partition (local_move_back_node tm1 node from to) node = to)"
proof (intro conjI impI)
  assume a: "graph_ok (graph tc) \<and> symmetric_adjacency (graph tc) \<and> index_consistent tc
      \<and> end_index \<le> length (transpositions tc) \<and> end_index \<le> length (from_partitions tc)
      \<and> end_index \<le> length (to_partitions tc) \<and> end_index \<le> length (gains tc)
      \<and> (\<forall>i \<in> {start ..< end_index}. transpositions tc ! i < number_of_nodes (graph tc))
      \<and> commit_moves tc (log_entries tc start end_index) = Inr (True, tc1)"
  then have ok: "graph_ok (graph tc)" and sym: "symmetric_adjacency (graph tc)"
    and ic: "index_consistent tc"
    and len: "end_index \<le> length (transpositions tc)" "end_index \<le> length (from_partitions tc)"
      "end_index \<le> length (to_partitions tc)" "end_index \<le> length (gains tc)"
    and rng: "\<forall>i \<in> {start ..< end_index}. transpositions tc ! i < number_of_nodes (graph tc)"
    and cm: "commit_moves tc (log_entries tc start end_index) = Inr (True, tc1)"
    by simp_all
  let ?idx = "[start ..< end_index]"
  have cm': "commit_moves tc
               (map (\<lambda>i. (transpositions tc ! i, from_partitions tc ! i, to_partitions tc ! i)) ?idx)
             = Inr (True, tc1)"
    using cm by (simp add: log_entries_def)
  have l1: "logs tc1 = (transpositions tc, from_partitions tc, to_partitions tc, gains tc)"
    using commit_moves_logs [OF cm] by (simp add: logs_def)
  have nn: "length (partition_index (graph tc)) = number_of_nodes (graph tc)"
    using ok by (simp add: graph_ok_def)
  have r: "\<forall>i \<in> set ?idx. i < length (transpositions tc) \<and> i < length (from_partitions tc)
             \<and> i < length (to_partitions tc) \<and> i < length (gains tc)
             \<and> transpositions tc ! i < length (partition_index (graph tc))"
    using len rng nn by auto
  from unroll_after_commit [OF cm' same_shared_refl l1 r, of mn ci] obtain tc2 mn' where
    f: "foldM_err unroll_relaxed_step (rev ?idx) (tc1, mn, ci)
          = Inr (tc2, mn', ci - sum_list (map (\<lambda>i. gains tc ! i) ?idx))" and
    sh: "same_shared tc2 tc"
    by blast
  have m: "\<forall>m \<in> set (log_entries tc start end_index). fst m < number_of_nodes (graph tc)"
    using rng by (auto simp: log_entries_def)
  note c1 = commit_moves_index [OF cm ok sym ic m]
  have "\<forall>i \<in> set (rev ?idx). transpositions tc1 ! i < number_of_nodes (graph tc1)"
    using rng c1 l1 by (simp add: logs_def)
  with unroll_relaxed_step_index [OF f] c1 have "index_consistent tc2" by simp
  with sh ic have "bnd_index (boundary tc2) = bnd_index (boundary tc)"
    "bnd_edge_cut (boundary tc2) = bnd_edge_cut (boundary tc)"
    by (simp_all add: index_consistent_def same_shared_def)
  with sh have "graph tc2 = graph tc \<and> boundary tc2 = boundary tc"
    by (simp add: same_shared_def complete_boundary.equality)
  with f show "\<exists>tc2 mn'. unroll_relaxed_moves tc1 mn (int start) (int end_index) ci
                       = Inr (tc2, mn', ci - sum_list (map (\<lambda>i. gains tc ! i) [start ..< end_index]))
                    \<and> graph tc2 = graph tc \<and> boundary tc2 = boundary tc"
    by (simp add: unroll_relaxed_moves_nat)
next
  assume a: "graph_ok (graph tv) \<and> symmetric_adjacency (graph tv) \<and> index_consistent tv
      \<and> (\<forall>m \<in> set ms. fst m < number_of_nodes (graph tv))
      \<and> length gs = length ms
      \<and> commit_moves tv ms = Inr (True, tv1)"
  then have ok: "graph_ok (graph tv)" and sym: "symmetric_adjacency (graph tv)"
    and ic: "index_consistent tv"
    and rng: "\<forall>m \<in> set ms. fst m < number_of_nodes (graph tv)"
    and lg: "length gs = length ms"
    and cm: "commit_moves tv ms = Inr (True, tv1)"
    by simp_all
  let ?ts = "map fst ms"
  let ?fs = "map (\<lambda>m. fst (snd m)) ms"
  have nn: "length (partition_index (graph tv)) = number_of_nodes (graph tv)"
    using ok by (simp add: graph_ok_def)
  have r: "\<forall>m \<in> set ms. fst m < length (partition_index (graph tv))"
    using rng nn by simp
  have "\<exists>tv2. foldM_err (unroll_relaxed_vectors_step ?ts ?fs gs) (rev [0 ..< length ms]) (tv1, cv)
                  = Inr (tv2, cv - sum_list (take (length ms) gs))
               \<and> same_shared tv2 tv"
    by (rule unroll_vectors_after_commit [OF cm same_shared_refl r]) (simp_all add: lg)
  then obtain tv2 where
    f: "foldM_err (unroll_relaxed_vectors_step ?ts ?fs gs) (rev [0 ..< length ms]) (tv1, cv)
          = Inr (tv2, cv - sum_list gs)" and
    sh: "same_shared tv2 tv"
    using lg by auto
  note c1 = commit_moves_index [OF cm ok sym ic rng]
  have "\<forall>i \<in> set (rev [0 ..< length ms]). ?ts ! i < number_of_nodes (graph tv1)"
    using rng c1 by simp
  with unroll_relaxed_vectors_step_index [OF f] c1 have "index_consistent tv2" by simp
  with sh ic have "bnd_index (boundary tv2) = bnd_index (boundary tv)"
    "bnd_edge_cut (boundary tv2) = bnd_edge_cut (boundary tv)"
    by (simp_all add: index_consistent_def same_shared_def)
  with sh have "graph tv2 = graph tv \<and> boundary tv2 = boundary tv"
    by (simp add: same_shared_def complete_boundary.equality)
  with f show "\<exists>tv2. unroll_relaxed_moves_vectors tv1 ?ts ?fs gs cv = Inr (tv2, cv - sum_list gs)
                 \<and> graph tv2 = graph tv \<and> boundary tv2 = boundary tv"
    by (simp add: unroll_relaxed_moves_vectors_def)
next
  assume a: "single_kway_refinement_round ext td = Inr ((g, mci, mv), td')
      \<and> length (from_partitions td) = length (transpositions td)
      \<and> length (to_partitions td) = length (transpositions td)
      \<and> length (transpositions td') \<le> 2 ^ 32"
  then have run: "single_kway_refinement_round_internal ext td = Inr ((g, mci, mv), td')"
    by (simp add: single_kway_refinement_round_def)
  from single_round_shared [OF run] show "graph td' = graph td" "boundary td' = boundary td"
    by simp_all
  from a show "local_aggregates td'
            = foldl (local_apply (node_weight (graph td))) (local_aggregates td)
                (log_entries td' (length (transpositions td)) (nat (mci + 1)))"
    by (intro single_round_aggr [OF run]) simp_all
  assume "nodes_partitions td = []"
  with run show "nodes_partitions td' = []" by (rule single_round_shadow)
next
  assume mv: "local_move_node ext tm node from gain = Inr (True, to, tm1)"
  from local_move_node_shared [OF mv] have g: "graph tm1 = graph tm" by simp
  from local_move_node_aggr [OF mv] have
    "local_aggregates tm1 = local_apply (node_weight (graph tm)) (local_aggregates tm) (node, from, to)"
    by simp
  then show "local_aggregates (local_move_back_node tm1 node from to) = local_aggregates tm"
    by (simp add: local_move_back_node_aggr g local_undo_apply)
  from local_move_node_shadow [OF mv]
  show s: "nodes_partitions (local_move_back_node tm1 node from to) = (node, to) # nodes_partitions tm"
    by (simp add: local_move_back_node_shadow)
  then show "get_local_partition (local_move_back_node tm1 node from to) node = to"
    by (simp add: get_local_partition_def)
qed

subsection \<open>Runs on the two instances\<close>

lemma example_commit_run:
  "case commit_moves example_log_td (log_entries example_log_td 0 2) of
     Inl e \<Rightarrow> False
   | Inr (ok, tc1) \<Rightarrow>
       ok \<and> partition_index (graph tc1) = [1, 1, 1, 1, 0]
          \<and> block_no_nodes (boundary tc1) = [1, 4] \<and> block_weight (boundary tc1) = [1, 4]"
  by code_simp

lemma example_commit:
  "\<exists>tc1. commit_moves example_log_td (log_entries example_log_td 0 2) = Inr (True, tc1)
     \<and> partition_index (graph tc1) = [1, 1, 1, 1, 0]
     \<and> block_no_nodes (boundary tc1) = [1, 4] \<and> block_weight (boundary tc1) = [1, 4]"
proof (cases "commit_moves example_log_td (log_entries example_log_td 0 2)")
  case (Inl e)
  with example_commit_run show ?thesis by simp
next
  case (Inr p)
  obtain ok x where "p = (ok, x)" by (cases p)
  with Inr example_commit_run show ?thesis by simp
qed

lemma example_graph_ok:
  "graph_ok example_graph \<and> symmetric_adjacency example_graph"
  by code_simp

text \<open>
  A round on the second instance: vertex 1 is moved to block 0 with gain 2, vertex 2 is moved
  to block 0 with gain \<open>- 1\<close>, the move of vertex 3 is refused because it would empty block 1;
  the best cut was reached after the first move, and the move of vertex 2 is unrolled.
\<close>

lemma example_path_round_run:
  "case single_kway_refinement_round example_ext example_path_td of
     Inl e \<Rightarrow> False
   | Inr (res, td') \<Rightarrow>
       res = (2, 0, 3) \<and>
       transpositions td' = [1, 2, sentinel] \<and> from_partitions td' = [1, 1, sentinel] \<and>
       to_partitions td' = [0, 0, sentinel] \<and>
       parts_weights td' = [2, 2] \<and> parts_sizes td' = [2, 2] \<and> nodes_partitions td' = []"
  by code_simp

lemma example_path_round:
  "\<exists>td'. single_kway_refinement_round example_ext example_path_td = Inr ((2, 0, 3), td') \<and>
       transpositions td' = [1, 2, sentinel] \<and> from_partitions td' = [1, 1, sentinel] \<and>
       to_partitions td' = [0, 0, sentinel] \<and>
       parts_weights td' = [2, 2] \<and> parts_sizes td' = [2, 2] \<and> nodes_partitions td' = []"
proof (cases "single_kway_refinement_round example_ext example_path_td")
  case (Inl e)
  with example_path_round_run show ?thesis by simp
next
  case (Inr p)
  obtain res td' where "p = (res, td')" by (cases p)
  with Inr example_path_round_run show ?thesis by simp
qed

lemma example_move_back_run:
  "case local_move_node example_ext example_td 2 1 0 of
     Inl e \<Rightarrow> False
   | Inr (ok, to, tm1) \<Rightarrow>
       ok \<and> to = 0 \<and> get_local_partition example_td 2 = 1
          \<and> get_local_partition (local_move_back_node tm1 2 1 0) 2 = 0
          \<and> parts_weights (local_move_back_node tm1 2 1 0) = [3, 2]
          \<and> parts_sizes (local_move_back_node tm1 2 1 0) = [3, 2]"
  by code_simp

lemma example_move_back:
  "\<exists>tm1. local_move_node example_ext example_td 2 1 0 = Inr (True, 0, tm1)
      \<and> get_local_partition example_td 2 = 1
      \<and> get_local_partition (local_move_back_node tm1 2 1 0) 2 = 0
      \<and> parts_weights (local_move_back_node tm1 2 1 0) = [3, 2]
      \<and> parts_sizes (local_move_back_node tm1 2 1 0) = [3, 2]"
proof (cases "local_move_node example_ext example_td 2 1 0")
  case (Inl e)
  with example_move_back_run show ?thesis by simp
next
  case (Inr p)
  obtain ok to tm1 where "p = (ok, to, tm1)" by (cases p)
  with Inr example_move_back_run show ?thesis by simp
qed

theorem unroll_restores_state_witness:
  "\<exists>tc1 tc2 mn' tv2 td' tm1.
     commit_moves example_log_td (log_entries example_log_td 0 2) = Inr (True, tc1)
     \<and> partition_index (graph tc1) = [1, 1, 1, 1, 0]
     \<and> block_no_nodes (boundary tc1) = [1, 4] \<and> block_weight (boundary tc1) = [1, 4]
     \<and> unroll_relaxed_moves tc1 Map.empty 0 2 0 = Inr (tc2, mn', - 1)
     \<and> graph tc2 = example_graph \<and> boundary tc2 = example_boundary
     \<and> unroll_relaxed_moves_vectors tc1 [1, 0] [0, 0] [- 1, 2] 0 = Inr (tv2, - 1)
     \<and> graph tv2 = example_graph \<and> boundary tv2 = example_boundary
     \<and> single_kway_refinement_round example_ext example_path_td = Inr ((2, 0, 3), td')
     \<and> transpositions td' = [1, 2, sentinel]
     \<and> graph td' = example_path_graph
     \<and> local_aggregates example_path_td = ([1, 3], [1, 3])
     \<and> local_aggregates td' = ([2, 2], [2, 2])
     \<and> nodes_partitions td' = []
     \<and> local_move_node example_ext example_td 2 1 0 = Inr (True, 0, tm1)
     \<and> local_aggregates (local_move_back_node tm1 2 1 0) = local_aggregates example_td
     \<and> get_local_partition (local_move_back_node tm1 2 1 0) 2 = 0"
proof -
  from example_commit obtain tc1 where
    c: "commit_moves example_log_td (log_entries example_log_td 0 2) = Inr (True, tc1)" and
    c': "partition_index (graph tc1) = [1, 1, 1, 1, 0]"
      "block_no_nodes (boundary tc1) = [1, 4]" "block_weight (boundary tc1) = [1, 4]"
    by blast
  from example_path_round obtain td' where
    r: "single_kway_refinement_round example_ext example_path_td = Inr ((2, 0, 3), td')" and
    r': "transpositions td' = [1, 2, sentinel]" "from_partitions td' = [1, 1, sentinel]"
      "to_partitions td' = [0, 0, sentinel]"
    by blast
  from example_move_back obtain tm1 where
    l: "local_move_node example_ext example_td 2 1 0 = Inr (True, 0, tm1)"
    by blast
  have g: "graph example_log_td = example_graph" "boundary example_log_td = example_boundary"
    "transpositions example_log_td = [1, 0]" "from_partitions example_log_td = [0, 0]"
    "to_partitions example_log_td = [1, 1]" "gains example_log_td = [- 1, 2]"
    by (simp_all add: example_log_td_def example_td_def)
  have le: "log_entries example_log_td 0 2 = [(1, 0, 1), (0, 0, 1)]"
    by (simp add: log_entries_def g upt_conv_Cons numeral_2_eq_2)
  have p: "graph example_path_td = example_path_graph"
    "transpositions example_path_td = []" "from_partitions example_path_td = []"
    "to_partitions example_path_td = []" "nodes_partitions example_path_td = []"
    "local_aggregates example_path_td = ([1, 3], [1, 3])"
    "node_weight example_path_graph = [1, 1, 1, 1]"
    by (simp_all add: example_path_td_def example_td_def local_aggregates_def
        example_path_graph_def)
  have ic: "index_consistent example_log_td"
    by (simp add: index_consistent_def g example_boundary_def)
  have nn: "number_of_nodes example_graph = 5"
    by (simp add: number_of_nodes_def example_graph_def)
  have rng: "\<forall>i \<in> {0 ..< 2}. transpositions example_log_td ! i < number_of_nodes (graph example_log_td)"
    by (simp add: g nn atLeastLessThan_def lessThan_def nth_Cons' less_Suc_eq numeral_2_eq_2)
  have hyp1: "graph_ok (graph example_log_td) \<and> symmetric_adjacency (graph example_log_td)
      \<and> index_consistent example_log_td
      \<and> 2 \<le> length (transpositions example_log_td) \<and> 2 \<le> length (from_partitions example_log_td)
      \<and> 2 \<le> length (to_partitions example_log_td) \<and> 2 \<le> length (gains example_log_td)
      \<and> (\<forall>i \<in> {0 ..< 2}. transpositions example_log_td ! i < number_of_nodes (graph example_log_td))
      \<and> commit_moves example_log_td (log_entries example_log_td 0 2) = Inr (True, tc1)"
    using example_graph_ok ic rng c by (simp add: g)
  have hyp2: "graph_ok (graph example_log_td) \<and> symmetric_adjacency (graph example_log_td)
      \<and> index_consistent example_log_td
      \<and> (\<forall>m \<in> set [(1, 0, 1), (0, 0, 1)]. fst m < number_of_nodes (graph example_log_td))
      \<and> length [- 1, 2 :: int] = length [(1 :: nat, 0 :: nat, 1 :: nat), (0, 0, 1)]
      \<and> commit_moves example_log_td [(1, 0, 1), (0, 0, 1)] = Inr (True, tc1)"
    using example_graph_ok ic c by (simp add: g nn le)
  have hyp3: "single_kway_refinement_round example_ext example_path_td = Inr ((2, 0, 3), td')
      \<and> length (from_partitions example_path_td) = length (transpositions example_path_td)
      \<and> length (to_partitions example_path_td) = length (transpositions example_path_td)
      \<and> length (transpositions td') \<le> 2 ^ 32"
    using r by (simp add: p r')
  have s: "sum_list (map (\<lambda>i. gains example_log_td ! i) [0 ..< 2]) = 1"
    by (simp add: g upt_conv_Cons numeral_2_eq_2)
  note t = unroll_restores_state [of example_log_td 2 0 tc1 Map.empty 0
      example_log_td "[(1, 0, 1), (0, 0, 1)]" "[- 1, 2]" tc1 0
      example_ext example_path_td 2 0 3 td' example_td 2 1 0 0 tm1]
  from t [THEN conjunct1] hyp1 s obtain tc2 mn' where
    u: "unroll_relaxed_moves tc1 Map.empty 0 2 0 = Inr (tc2, mn', - 1)"
      "graph tc2 = example_graph" "boundary tc2 = example_boundary"
    by (auto simp: g)
  from t [THEN conjunct2, THEN conjunct1] hyp2 obtain tv2 where
    v: "unroll_relaxed_moves_vectors tc1 [1, 0] [0, 0] [- 1, 2] 0 = Inr (tv2, - 1)"
      "graph tv2 = example_graph" "boundary tv2 = example_boundary"
    by (auto simp: g)
  from t [THEN conjunct2, THEN conjunct2, THEN conjunct1] hyp3 have
    "graph td' = graph example_path_td \<and> boundary td' = boundary example_path_td
        \<and> local_aggregates td'
            = foldl (local_apply (node_weight (graph example_path_td)))
                (local_aggregates example_path_td)
                (log_entries td' (length (transpositions example_path_td)) (nat (0 + 1)))
        \<and> (nodes_partitions example_path_td = [] \<longrightarrow> nodes_partitions td' = [])"
    by blast
  then have w: "graph td' = example_path_graph" "local_aggregates td' = ([2, 2], [2, 2])"
    "nodes_partitions td' = []"
    by (simp_all add: p r' log_entries_def local_apply_def)
  from t [THEN conjunct2, THEN conjunct2, THEN conjunct2] l have
    x: "local_aggregates (local_move_back_node tm1 2 1 0) = local_aggregates example_td"
      "get_local_partition (local_move_back_node tm1 2 1 0) 2 = 0"
    by simp_all
  show ?thesis
    using c c' u v r r'(1) w p(6) l x by blast
qed

text \<open>
  The claim as the specification words it does not hold for the thread's own view.  On the
  first instance, \<open>local_move_node\<close> moves vertex 2 from block 1 to block 0 and
  \<open>local_move_back_node\<close> takes the move back: the shadow label of vertex 2 was 1 before the
  move and is 0 after the way back.  On the second instance, the round keeps the move of
  vertex 1 and unrolls the move of vertex 2: after the unroll the thread's block weights and
  block sizes are \<open>[2, 2]\<close>, not the \<open>[1, 3]\<close> of the start of the round.
\<close>

theorem local_unroll_not_identity:
  "(\<exists>tm1. local_move_node example_ext example_td 2 1 0 = Inr (True, 0, tm1)
      \<and> get_local_partition example_td 2 = 1
      \<and> get_local_partition (local_move_back_node tm1 2 1 0) 2 = 0)
   \<and> (\<exists>td'. single_kway_refinement_round example_ext example_path_td = Inr ((2, 0, 3), td')
      \<and> transpositions td' = [1, 2, sentinel]
      \<and> parts_weights example_path_td = [1, 3] \<and> parts_sizes example_path_td = [1, 3]
      \<and> parts_weights td' = [2, 2] \<and> parts_sizes td' = [2, 2])"
proof -
  have "parts_weights example_path_td = [1, 3] \<and> parts_sizes example_path_td = [1, 3]"
    by (simp add: example_path_td_def)
  with example_move_back example_path_round show ?thesis by blast
qed


section \<open>The driver: input partition and time limit\<close>

lemma read_input_partition_partition_config:
  "only_first_level (main_partition_config (read_input_partition file_labels s))
     = only_first_level (main_partition_config s)
   \<and> mh_no_mh (main_partition_config (read_input_partition file_labels s))
     = mh_no_mh (main_partition_config s)
   \<and> no_change_convergence (main_partition_config (read_input_partition file_labels s))
     = no_change_convergence (main_partition_config s)
   \<and> corner_refinement_enabled (main_partition_config (read_input_partition file_labels s))
     = corner_refinement_enabled (main_partition_config s)
   \<and> kaffpa_perfectly_balanced_refinement (main_partition_config (read_input_partition file_labels s))
     = kaffpa_perfectly_balanced_refinement (main_partition_config s)"
  by (simp add: read_input_partition_def Let_def)

text \<open>
  C8.  Started with \<open>--input_partition part.txt\<close> and a configuration whose
  \<open>only_first_level\<close> is false and whose four other controls are true, the block of lines
  86--102 marks \<open>partition_config\<close> as already partitioned, but leaves \<open>only_first_level\<close> of
  \<open>partition_config\<close> false and its four other controls true: the five assignments go to the
  object named \<open>config\<close>.  \<open>partition_config\<close> is what \<open>perform_partitioning\<close> receives.
\<close>

theorem read_input_partition_leaves_partition_config:
  "graph_allready_partitioned (main_partition_config (read_input_partition [1, 1, 0, 0, 1] example_main))
   \<and> \<not> only_first_level (main_partition_config (read_input_partition [1, 1, 0, 0, 1] example_main))
   \<and> mh_no_mh (main_partition_config (read_input_partition [1, 1, 0, 0, 1] example_main))
   \<and> no_change_convergence (main_partition_config (read_input_partition [1, 1, 0, 0, 1] example_main))
   \<and> corner_refinement_enabled (main_partition_config (read_input_partition [1, 1, 0, 0, 1] example_main))
   \<and> kaffpa_perfectly_balanced_refinement
        (main_partition_config (read_input_partition [1, 1, 0, 0, 1] example_main))
   \<and> only_first_level (main_config (read_input_partition [1, 1, 0, 0, 1] example_main))
   \<and> partition_index (main_G (read_input_partition [1, 1, 0, 0, 1] example_main)) = [1, 1, 0, 0, 1]"
  by (simp add: read_input_partition_def Let_def example_main_def example_config_def
      readPartition_def example_graph_def number_of_nodes_def setPartitionIndex_def
      upt_rec [of 0] upt_rec [of 1] upt_rec [of 2] upt_rec [of 3] upt_rec [of 4])

text \<open>
  C7.  The time limit is 3 and the first reading of the clock is already 5, so no run is
  made.  The labels stored in the graph afterwards are the initial contents of the array
  \<open>map\<close>, here five times the value 7, which is not a block id for \<open>k = 2\<close> and is not the result
  of any run.
\<close>

theorem time_limit_no_run_stores_fresh_array:
  "perform_partitioning_section perform_partitioning edge_cut [5] [7, 7, 7, 7, 7] example_main
     = Some (example_main\<lparr>main_G := example_graph\<lparr>partition_index := [7, 7, 7, 7, 7]\<rparr>\<rparr>, 0)"
  by (simp add: perform_partitioning_section_def example_main_def example_config_def
      restore_partition_def example_graph_def number_of_nodes_def setPartitionIndex_def
      upt_rec [of 0] upt_rec [of 1] upt_rec [of 2] upt_rec [of 3] upt_rec [of 4])


end
